theory Spec2Isabelle
  imports Main "HOL-Library.Word"
begin

section \<open>Runtime values: bytes, buffers, strings, errors\<close>

text \<open>
  A Node.js \<open>Buffer\<close> is a sequence of bytes; a JavaScript string is a sequence of
  UTF-16 code units. Exceptions are values of \<open>js_error\<close>, returned on the left of a sum.
\<close>

type_synonym byte = "8 word"
type_synonym buffer = "byte list"
type_synonym jschar = "16 word"
type_synonym jsstring = "jschar list"

datatype js_error = RangeError | TypeError | Error jsstring

text \<open>An ASCII literal as a JavaScript string, and as the bytes \<open>buffer.write\<close> stores.\<close>

definition js :: "string \<Rightarrow> jsstring" where
  "js s = map (\<lambda>c. of_nat (of_char c)) s"

definition ascii :: "string \<Rightarrow> buffer" where
  "ascii s = map (\<lambda>c. of_nat (of_char c)) s"

section \<open>The WAV recombiner of \<open>/process-recording-audio\<close>\<close>

subsection \<open>Buffer primitives\<close>

text \<open>\<open>buffer[i]\<close>: \<open>undefined\<close> (here \<open>None\<close>) outside the buffer.\<close>

definition byte_at :: "buffer \<Rightarrow> nat \<Rightarrow> byte option" where
  "byte_at buf i = (if i < length buf then Some (buf ! i) else None)"

text \<open>
  \<open>buffer.readUInt32LE(offset)\<close>: throws \<open>ERR_OUT_OF_RANGE\<close> unless the four bytes
  \<open>offset .. offset + 3\<close> lie inside the buffer.
\<close>

definition readUInt32LE :: "buffer \<Rightarrow> nat \<Rightarrow> js_error + nat" where
  "readUInt32LE buf offset =
     (if offset + 4 \<le> length buf
      then Inr (unat (buf ! offset) + unat (buf ! (offset + 1)) * 2 ^ 8
                + unat (buf ! (offset + 2)) * 2 ^ 16 + unat (buf ! (offset + 3)) * 2 ^ 24)
      else Inl RangeError)"

text \<open>\<open>buffer.slice(start, end)\<close> for non-negative arguments: both ends are clamped.\<close>

definition slice :: "buffer \<Rightarrow> nat \<Rightarrow> nat \<Rightarrow> buffer" where
  "slice buf start end = drop start (take end buf)"

text \<open>
  Storing bytes at an offset, as \<open>buffer.write(string, offset)\<close> and
  \<open>source.copy(target, targetStart)\<close> do: what does not fit is cut off, the length
  of the target never changes.
\<close>

definition write_bytes :: "buffer \<Rightarrow> nat \<Rightarrow> buffer \<Rightarrow> buffer" where
  "write_bytes target offset bs =
     (let bs' = take (length target - offset) bs
      in take offset target @ bs' @ drop (offset + length bs') target)"

definition u16le :: "nat \<Rightarrow> buffer" where
  "u16le v = [of_nat v, of_nat (v div 2 ^ 8)]"

definition u32le :: "nat \<Rightarrow> buffer" where
  "u32le v = [of_nat v, of_nat (v div 2 ^ 8), of_nat (v div 2 ^ 16), of_nat (v div 2 ^ 24)]"

text \<open>
  \<open>writeUInt32LE(value, offset)\<close> and \<open>writeUInt16LE\<close>: \<open>ERR_OUT_OF_RANGE\<close> when the
  value does not fit the field or the field does not fit the buffer.
\<close>

definition writeUInt32LE :: "buffer \<Rightarrow> nat \<Rightarrow> nat \<Rightarrow> js_error + buffer" where
  "writeUInt32LE buf v offset =
     (if v < 2 ^ 32 \<and> offset + 4 \<le> length buf
      then Inr (write_bytes buf offset (u32le v)) else Inl RangeError)"

definition writeUInt16LE :: "buffer \<Rightarrow> nat \<Rightarrow> nat \<Rightarrow> js_error + buffer" where
  "writeUInt16LE buf v offset =
     (if v < 2 ^ 16 \<and> offset + 2 \<le> length buf
      then Inr (write_bytes buf offset (u16le v)) else Inl RangeError)"

text \<open>Sequencing of calls that may throw.\<close>

definition bind :: "js_error + 'a \<Rightarrow> ('a \<Rightarrow> js_error + 'b) \<Rightarrow> js_error + 'b" where
  "bind m f = (case m of Inl e \<Rightarrow> Inl e | Inr x \<Rightarrow> f x)"

subsection \<open>Locating the data chunk of one segment\<close>

text \<open>The test of the scan at offset \<open>i\<close>: the four bytes \<open>0x64 0x61 0x74 0x61\<close> ("data").\<close>

definition marker_at :: "buffer \<Rightarrow> nat \<Rightarrow> bool" where
  "marker_at buf i \<longleftrightarrow>
     byte_at buf i = Some 0x64 \<and> byte_at buf (i + 1) = Some 0x61 \<and>
     byte_at buf (i + 2) = Some 0x74 \<and> byte_at buf (i + 3) = Some 0x61"

text \<open>
  The inner loop \<open>for (let i = 0; i < buffer.length - 8; i++)\<close>, from offset \<open>i\<close> on.
  It returns \<open>(dataChunkStart, dataChunkSize)\<close>, which stay at their initial values
  \<open>(-1, 0)\<close> when the loop ends without a match. The loop condition is written
  without subtraction: \<open>buffer.length - 8\<close> is negative for a short buffer.
\<close>

function scan_data :: "buffer \<Rightarrow> nat \<Rightarrow> js_error + (int \<times> nat)" where
  "scan_data buf i =
     (if i + 8 < length buf
      then (if marker_at buf i
            then bind (readUInt32LE buf (i + 4)) (\<lambda>dataChunkSize. Inr (int i + 8, dataChunkSize))
            else scan_data buf (Suc i))
      else Inr (-1, 0))"
  by pat_completeness auto
termination
  by (relation "measure (\<lambda>(buf, i). length buf - i)") auto

declare scan_data.simps [simp del]

definition find_data_chunk :: "buffer \<Rightarrow> js_error + (int \<times> nat)" where
  "find_data_chunk buf = scan_data buf 0"

text \<open>
  The bytes one segment adds to \<open>combinedAudioData\<close>: the slice when a chunk was
  found and its declared size is positive, nothing otherwise.
\<close>

definition audioData :: "buffer \<Rightarrow> js_error + buffer" where
  "audioData buf =
     bind (find_data_chunk buf) (\<lambda>(dataChunkStart, dataChunkSize).
       if dataChunkStart \<noteq> -1 \<and> dataChunkSize > 0
       then Inr (slice buf (nat dataChunkStart) (nat dataChunkStart + dataChunkSize))
       else Inr [])"

text \<open>The outer loop \<open>for (const buffer of audioBuffers)\<close> with \<open>Buffer.concat\<close>.\<close>

fun combine :: "buffer \<Rightarrow> buffer list \<Rightarrow> js_error + buffer" where
  "combine combinedAudioData [] = Inr combinedAudioData"
| "combine combinedAudioData (buf # rest) =
     bind (audioData buf) (\<lambda>d. combine (combinedAudioData @ d) rest)"

subsection \<open>Writing the merged container\<close>

definition sampleRate :: nat where "sampleRate = 24000"
definition numChannels :: nat where "numChannels = 1"
definition bitsPerSample :: nat where "bitsPerSample = 16"
definition byteRate :: nat where "byteRate = sampleRate * numChannels * (bitsPerSample div 8)"
definition blockAlign :: nat where "blockAlign = numChannels * (bitsPerSample div 8)"

definition build_wav :: "buffer \<Rightarrow> js_error + buffer" where
  "build_wav combinedAudioData =
     (let dataSize = length combinedAudioData;
          fileSize = 36 + dataSize;
          w0 = replicate (44 + dataSize) 0;
          w1 = write_bytes w0 0 (ascii ''RIFF'')
      in bind (writeUInt32LE w1 fileSize 4) (\<lambda>w2.
         let w3 = write_bytes w2 8 (ascii ''WAVE'');
             w4 = write_bytes w3 12 (ascii ''fmt '')
         in bind (writeUInt32LE w4 16 16) (\<lambda>w5.
            bind (writeUInt16LE w5 1 20) (\<lambda>w6.
            bind (writeUInt16LE w6 numChannels 22) (\<lambda>w7.
            bind (writeUInt32LE w7 sampleRate 24) (\<lambda>w8.
            bind (writeUInt32LE w8 byteRate 28) (\<lambda>w9.
            bind (writeUInt16LE w9 blockAlign 32) (\<lambda>w10.
            bind (writeUInt16LE w10 bitsPerSample 34) (\<lambda>w11.
            let w12 = write_bytes w11 36 (ascii ''data'')
            in bind (writeUInt32LE w12 dataSize 40) (\<lambda>w13.
               Inr (write_bytes w13 44 combinedAudioData)))))))))))"

text \<open>Lines 378 to 431 of the handler: from \<open>audioBuffers\<close> to \<open>wavBuffer\<close>.\<close>

definition merge_wav :: "buffer list \<Rightarrow> js_error + buffer" where
  "merge_wav audioBuffers = bind (combine [] audioBuffers) build_wav"

subsection \<open>What one segment contributes\<close>

text \<open>
  The payload extracted from one segment, as a plain value (the scan never throws, see
  \<open>audioData_total\<close>), the total over all segments, and the 44 header bytes the
  handler writes for a payload of a given size.
\<close>

definition payload :: "buffer \<Rightarrow> buffer" where
  "payload buf = (case audioData buf of Inr d \<Rightarrow> d | Inl e \<Rightarrow> [])"

definition total_payload :: "buffer list \<Rightarrow> nat" where
  "total_payload audioBuffers = sum_list (map (\<lambda>buf. length (payload buf)) audioBuffers)"

definition wav_header :: "nat \<Rightarrow> buffer" where
  "wav_header dataSize =
     ascii ''RIFF'' @ u32le (36 + dataSize) @ ascii ''WAVE'' @
     ascii ''fmt '' @ u32le 16 @ u16le 1 @ u16le 1 @ u32le 24000 @ u32le 48000 @
     u16le 2 @ u16le 16 @ ascii ''data'' @ u32le dataSize"

text \<open>
  Two segments to evaluate examples with: 24 kHz mono 16-bit WAV files whose \<open>data\<close>
  chunk starts at offset 36, the first with the four payload bytes \<open>1 2 3 4\<close>, the
  second with the two payload bytes \<open>9 8\<close> followed by two bytes that belong to no
  chunk.
\<close>

definition example_segment_a :: buffer where
  "example_segment_a =
     [0x52, 0x49, 0x46, 0x46, 40, 0, 0, 0, 0x57, 0x41, 0x56, 0x45,
      0x66, 0x6D, 0x74, 0x20, 16, 0, 0, 0, 1, 0, 1, 0, 0xC0, 0x5D, 0, 0, 0x80, 0xBB, 0, 0,
      2, 0, 16, 0, 0x64, 0x61, 0x74, 0x61, 4, 0, 0, 0, 1, 2, 3, 4]"

definition example_segment_b :: buffer where
  "example_segment_b =
     [0x52, 0x49, 0x46, 0x46, 40, 0, 0, 0, 0x57, 0x41, 0x56, 0x45,
      0x66, 0x6D, 0x74, 0x20, 16, 0, 0, 0, 1, 0, 1, 0, 0xC0, 0x5D, 0, 0, 0x80, 0xBB, 0, 0,
      2, 0, 16, 0, 0x64, 0x61, 0x74, 0x61, 2, 0, 0, 0, 9, 8, 0x4C, 0x49]"

section \<open>Sentence segmentation: \<open>splitIntoSentences\<close>\<close>

subsection \<open>Character classes\<close>

text \<open>
  The characters \<open>String.prototype.trim\<close> strips and the regular expression class
  \<open>\s\<close> matches: ECMAScript's WhiteSpace and LineTerminator code units.
\<close>

definition is_ws :: "jschar \<Rightarrow> bool" where
  "is_ws c \<longleftrightarrow>
     c \<in> {0x09, 0x0A, 0x0B, 0x0C, 0x0D, 0x20, 0xA0, 0x1680, 0x2028, 0x2029, 0x202F,
          0x205F, 0x3000, 0xFEFF} \<or> (0x2000 \<le> c \<and> c \<le> 0x200A)"

definition trim :: "jsstring \<Rightarrow> jsstring" where
  "trim s = rev (dropWhile is_ws (rev (dropWhile is_ws s)))"

definition newline :: jschar where
  "newline = 0x0A"

text \<open>
  The two classes of \<open>/[^.!?\<dots>)\n]+[.!?\<dots>)]+/g\<close>. The second class holds
  \<open>.\<close> \<open>!\<close> \<open>?\<close>, the danda U+0964, the double danda U+0965 and the closing
  parenthesis; the first is its complement without the newline.
\<close>

definition is_terminator :: "jschar \<Rightarrow> bool" where
  "is_terminator c \<longleftrightarrow> c \<in> {0x2E, 0x21, 0x3F, 0x0964, 0x0965, 0x29}"

definition is_body :: "jschar \<Rightarrow> bool" where
  "is_body c \<longleftrightarrow> \<not> is_terminator c \<and> c \<noteq> newline"

text \<open>The class \<open>[A-Z]\<close> of the lookahead.\<close>

definition is_upper :: "jschar \<Rightarrow> bool" where
  "is_upper c \<longleftrightarrow> 0x41 \<le> c \<and> c \<le> 0x5A"

subsection \<open>\<open>text.match(/body+ term+/g)\<close>\<close>

text \<open>
  One attempt of a pattern \<open>B+T+\<close>, for disjoint classes \<open>B\<close> and \<open>T\<close>, at the start
  of \<open>s\<close>. Both quantifiers are greedy and backtracking cannot help: after the longest
  run of \<open>B\<close> the next character is outside \<open>B\<close>, and a shorter run is followed by a
  character of \<open>B\<close>, which is not in \<open>T\<close>. The result is the match and the text after it.
\<close>

definition match_here ::
  "(jschar \<Rightarrow> bool) \<Rightarrow> (jschar \<Rightarrow> bool) \<Rightarrow> jsstring \<Rightarrow> (jsstring \<times> jsstring) option" where
  "match_here B T s =
     (let body = takeWhile B s; rest = dropWhile B s; terms = takeWhile T rest
      in if body \<noteq> [] \<and> terms \<noteq> [] then Some (body @ terms, dropWhile T rest) else None)"

text \<open>
  The global match: the leftmost match from the current position, then on from its end;
  where no match starts, the search moves one code unit on. \<open>[]\<close> stands for \<open>null\<close>.
\<close>

function match_all :: "(jschar \<Rightarrow> bool) \<Rightarrow> (jschar \<Rightarrow> bool) \<Rightarrow> jsstring \<Rightarrow> jsstring list" where
  "match_all B T [] = []"
| "match_all B T (c # cs) =
     (case match_here B T (c # cs) of
        Some (m, rest) \<Rightarrow> m # match_all B T rest
      | None \<Rightarrow> match_all B T cs)"
  by pat_completeness auto
termination
proof (relation "measure (\<lambda>(B, T, s). length s)")
  fix B T :: "jschar \<Rightarrow> bool" and c cs x2 m rest
  assume "match_here B T (c # cs) = Some x2" and "(m, rest) = x2"
  then have nonempty: "takeWhile B (c # cs) \<noteq> []"
    and rest: "rest = dropWhile T (dropWhile B (c # cs))"
    by (auto simp: match_here_def Let_def split: if_splits)
  have "length rest \<le> length (dropWhile B (c # cs))"
    unfolding rest by (rule length_dropWhile_le)
  moreover have "length (dropWhile B (c # cs)) < length (c # cs)"
    using nonempty length_dropWhile_le [of B cs] by (auto split: if_splits)
  ultimately show "((B, T, rest), (B, T, c # cs)) \<in> measure (\<lambda>(B, T, s). length s)"
    by simp
qed simp_all

subsection \<open>\<open>text.split('\n')\<close>\<close>

fun split_on :: "jschar \<Rightarrow> jsstring \<Rightarrow> jsstring list" where
  "split_on d [] = [[]]"
| "split_on d (c # cs) =
     (if c = d then [] # split_on d cs
      else (case split_on d cs of piece # pieces \<Rightarrow> (c # piece) # pieces | [] \<Rightarrow> [[c]]))"

subsection \<open>\<open>text.split(/\s{2,}|\s+(?=[A-Z])/)\<close>\<close>

text \<open>
  The length of the separator matched at the start of \<open>s\<close>, 0 when none is: a run of
  two or more white space characters (first alternative), else a single white space
  character followed by an upper-case letter (second alternative).
\<close>

definition sep_here :: "jsstring \<Rightarrow> nat" where
  "sep_here s =
     (let run = takeWhile is_ws s; rest = dropWhile is_ws s
      in if length run \<ge> 2 then length run
         else if length run = 1 \<and> (case rest of c # cs \<Rightarrow> is_upper c | [] \<Rightarrow> False) then 1
         else 0)"

text \<open>
  The split loop: \<open>piece\<close> is the text since the end of the last separator, \<open>s\<close> the
  text still to scan.
\<close>

function split_sep :: "jsstring \<Rightarrow> jsstring \<Rightarrow> jsstring list" where
  "split_sep piece [] = [piece]"
| "split_sep piece (c # cs) =
     (if sep_here (c # cs) = 0 then split_sep (piece @ [c]) cs
      else piece # split_sep [] (drop (sep_here (c # cs)) (c # cs)))"
  by pat_completeness auto
termination
  by (relation "measure (\<lambda>(piece, s). length s)") auto

subsection \<open>The cascade\<close>

definition trimmed_nonempty :: "jsstring list \<Rightarrow> jsstring list" where
  "trimmed_nonempty sentences = filter (\<lambda>s. length s > 0) (map trim sentences)"

definition splitIntoSentences :: "jsstring \<Rightarrow> jsstring list" where
  "splitIntoSentences text0 =
     (if length (trim text0) = 0 then []
      else let text = trim text0;
               sentences1 = match_all is_body is_terminator text
           in if length sentences1 > 0 then trimmed_nonempty sentences1
              else let sentences2 = split_on newline text
                   in if length sentences2 > 1 then trimmed_nonempty sentences2
                      else if length text > 100
                           then let sentences3 = split_sep [] text
                                in if length sentences3 > 1 then trimmed_nonempty sentences3
                                   else [text]
                           else [text])"

text \<open>
  The first stage as the specification words it: terminators are \<open>.\<close> \<open>!\<close> \<open>?\<close> and
  the two danda marks only, and every other character belongs to a run of
  non-terminators.
\<close>

definition spec_terminator :: "jschar \<Rightarrow> bool" where
  "spec_terminator c \<longleftrightarrow> c \<in> {0x2E, 0x21, 0x3F, 0x0964, 0x0965}"

definition spec_punctuation_split :: "jsstring \<Rightarrow> jsstring list" where
  "spec_punctuation_split text0 =
     trimmed_nonempty (match_all (\<lambda>c. \<not> spec_terminator c) spec_terminator (trim text0))"

section \<open>The webhook stream: \<open>callWebhookStream\<close>\<close>

subsection \<open>JSON values and the runtime\<close>

text \<open>
  What \<open>JSON.parse\<close> returns. Numbers are kept abstract (type \<open>'n\<close>): the code only
  tests them for truthiness and converts them to strings. An object is its list of
  properties, each key once.
\<close>

datatype 'n json =
    JNull
  | JBool bool
  | JNum 'n
  | JStr jsstring
  | JArr "'n json list"
  | JObj "(jsstring \<times> 'n json) list"

text \<open>
  The parts of the JavaScript runtime the code calls and that are not modelled further:
  \<open>JSON.parse\<close> (\<open>None\<close> when it throws), the truthiness of a number, and the
  conversion to a string that \<open>+=\<close> applies to a value that is not a string.
\<close>

record 'n runtime =
  JSON_parse :: "jsstring \<Rightarrow> 'n json option"
  number_truthy :: "'n \<Rightarrow> bool"
  ToString :: "'n json \<Rightarrow> js_error + jsstring"

subsection \<open>\<open>chunk.toString('utf8')\<close>\<close>

text \<open>
  The UTF-8 decoder behind \<open>Buffer.prototype.toString\<close>: every chunk is decoded on its
  own, from the initial state; an ill-formed or unfinished sequence becomes U+FFFD, and a
  code point beyond U+FFFF becomes a surrogate pair.
\<close>

datatype utf8_state =
    Start
  | Pending (needed: nat) (codepoint: nat) (lower: nat) (upper: nat)

definition utf16 :: "nat \<Rightarrow> jsstring" where
  "utf16 cp =
     (if cp < 0x10000 then [of_nat cp]
      else [of_nat (0xD800 + (cp - 0x10000) div 0x400),
            of_nat (0xDC00 + (cp - 0x10000) mod 0x400)])"

definition lead :: "nat \<Rightarrow> jsstring \<times> utf8_state" where
  "lead b =
     (if b < 0x80 then ([of_nat b], Start)
      else if 0xC2 \<le> b \<and> b \<le> 0xDF then ([], Pending 1 (b - 0xC0) 0x80 0xBF)
      else if 0xE0 \<le> b \<and> b \<le> 0xEF
        then ([], Pending 2 (b - 0xE0) (if b = 0xE0 then 0xA0 else 0x80)
                    (if b = 0xED then 0x9F else 0xBF))
      else if 0xF0 \<le> b \<and> b \<le> 0xF4
        then ([], Pending 3 (b - 0xF0) (if b = 0xF0 then 0x90 else 0x80)
                    (if b = 0xF4 then 0x8F else 0xBF))
      else ([0xFFFD], Start))"

fun utf8_step :: "utf8_state \<Rightarrow> nat \<Rightarrow> jsstring \<times> utf8_state" where
  "utf8_step Start b = lead b"
| "utf8_step (Pending n cp lo hi) b =
     (if lo \<le> b \<and> b \<le> hi
      then (if n = 1 then (utf16 (cp * 64 + (b - 0x80)), Start)
            else ([], Pending (n - 1) (cp * 64 + (b - 0x80)) 0x80 0xBF))
      else (0xFFFD # fst (lead b), snd (lead b)))"

fun utf8_run :: "utf8_state \<Rightarrow> buffer \<Rightarrow> jsstring" where
  "utf8_run st [] = (case st of Start \<Rightarrow> [] | Pending n cp lo hi \<Rightarrow> [0xFFFD])"
| "utf8_run st (b # bs) = fst (utf8_step st (unat b)) @ utf8_run (snd (utf8_step st (unat b))) bs"

definition toString_utf8 :: "buffer \<Rightarrow> jsstring" where
  "toString_utf8 chunk = utf8_run Start chunk"

subsection \<open>The \<open>data\<close> and \<open>end\<close> handlers\<close>

text \<open>The \<open>try\<close>/\<open>catch\<close> around \<open>JSON.parse\<close>: the parsed value, else \<open>{ text: line.trim() }\<close>.\<close>

definition classify :: "'n runtime \<Rightarrow> jsstring \<Rightarrow> 'n json" where
  "classify rt line =
     (case JSON_parse rt line of
        Some parsed \<Rightarrow> parsed
      | None \<Rightarrow> JObj [(js ''text'', JStr (trim line))])"

text \<open>The body of \<open>lines.forEach\<close>.\<close>

definition on_line :: "'n runtime \<Rightarrow> 'n json list \<Rightarrow> jsstring \<Rightarrow> 'n json list" where
  "on_line rt responses line =
     (if trim line \<noteq> [] then responses @ [classify rt line] else responses)"

text \<open>
  The \<open>data\<close> handler on the state \<open>(buffer, responses)\<close>. \<open>split\<close> returns at least one
  piece, so \<open>lines.pop()\<close> is its last piece.
\<close>

definition on_data :: "'n runtime \<Rightarrow> jsstring \<times> 'n json list \<Rightarrow> buffer \<Rightarrow> jsstring \<times> 'n json list" where
  "on_data rt state chunk =
     (let buffer = fst state @ toString_utf8 chunk;
          lines = split_on newline buffer
      in (last lines, foldl (on_line rt) (snd state) (butlast lines)))"

definition on_end :: "'n runtime \<Rightarrow> jsstring \<times> 'n json list \<Rightarrow> 'n json list" where
  "on_end rt state =
     (if trim (fst state) \<noteq> [] then snd state @ [classify rt (fst state)] else snd state)"

text \<open>
  The pieces of a split joined again with the delimiter between them, and the messages
  a list of complete lines gives: the reference the handlers are compared with.
\<close>

fun join_lines :: "jsstring list \<Rightarrow> jsstring" where
  "join_lines [] = []"
| "join_lines [piece] = piece"
| "join_lines (piece # pieces) = piece @ [newline] @ join_lines pieces"

definition messages_of :: "'n runtime \<Rightarrow> jsstring list \<Rightarrow> 'n json list" where
  "messages_of rt pieces = map (classify rt) (filter (\<lambda>piece. trim piece \<noteq> []) pieces)"

text \<open>The messages resolved for a stream that delivers \<open>chunks\<close> and then ends.\<close>

definition reassemble :: "'n runtime \<Rightarrow> buffer list \<Rightarrow> 'n json list" where
  "reassemble rt chunks = on_end rt (foldl (on_data rt) ([], []) chunks)"

text \<open>
  A runtime to evaluate examples with: numbers are naturals, and \<open>JSON.parse\<close> accepts
  the text \<open>1\<close> only, which is enough for texts that are not JSON.
\<close>

definition example_runtime :: "nat runtime" where
  "example_runtime =
     \<lparr>JSON_parse = (\<lambda>s. if s = js ''1'' then Some (JNum 1) else None),
      number_truthy = (\<lambda>n. n \<noteq> 0),
      ToString = (\<lambda>v. Inl TypeError)\<rparr>"

section \<open>Text extraction: \<open>extractTextFromResponse\<close> and the accumulation loop\<close>

text \<open>
  Reading one of the properties \<open>type\<close>, \<open>content\<close>, \<open>text\<close>, \<open>message\<close>: a
  \<open>TypeError\<close> on \<open>null\<close>, the property of an object, \<open>undefined\<close> (\<open>None\<close>) on an object
  without it and on strings, numbers, booleans and arrays.
\<close>

fun get_property :: "'n json \<Rightarrow> jsstring \<Rightarrow> js_error + 'n json option" where
  "get_property JNull key = Inl TypeError"
| "get_property (JObj properties) key = Inr (map_of properties key)"
| "get_property v key = Inr None"

text \<open>Truthiness, of a value and of a value that may be \<open>undefined\<close>.\<close>

fun truthy :: "'n runtime \<Rightarrow> 'n json \<Rightarrow> bool" where
  "truthy rt JNull = False"
| "truthy rt (JBool b) = b"
| "truthy rt (JNum n) = number_truthy rt n"
| "truthy rt (JStr s) = (s \<noteq> [])"
| "truthy rt (JArr xs) = True"
| "truthy rt (JObj properties) = True"

fun truthy_opt :: "'n runtime \<Rightarrow> 'n json option \<Rightarrow> bool" where
  "truthy_opt rt None = False"
| "truthy_opt rt (Some v) = truthy rt v"

fun is_string :: "'n json \<Rightarrow> bool" where
  "is_string (JStr s) = True"
| "is_string v = False"

text \<open>The result \<open>None\<close> is \<open>null\<close>.\<close>

definition extractTextFromResponse :: "'n runtime \<Rightarrow> 'n json \<Rightarrow> js_error + 'n json option" where
  "extractTextFromResponse rt response =
     bind (get_property response (js ''type'')) (\<lambda>type.
       if truthy_opt rt type \<and> type \<noteq> Some (JStr (js ''item'')) then Inr None
       else bind (get_property response (js ''content'')) (\<lambda>content.
         if truthy_opt rt content then Inr content
         else if is_string response then Inr (Some response)
         else bind (get_property response (js ''text'')) (\<lambda>text.
           if truthy_opt rt text then Inr text
           else bind (get_property response (js ''message'')) (\<lambda>message.
             if truthy_opt rt message then Inr message else Inr None))))"

text \<open>\<open>accumulatedText += content\<close>: concatenation, after conversion when needed.\<close>

fun append_value :: "'n runtime \<Rightarrow> jsstring \<Rightarrow> 'n json \<Rightarrow> js_error + jsstring" where
  "append_value rt acc (JStr s) = Inr (acc @ s)"
| "append_value rt acc v = bind (ToString rt v) (\<lambda>s. Inr (acc @ s))"

text \<open>The loop \<open>for (const webhookResponse of webhookResponses)\<close>.\<close>

fun accumulate :: "'n runtime \<Rightarrow> jsstring \<Rightarrow> 'n json list \<Rightarrow> js_error + jsstring" where
  "accumulate rt accumulatedText [] = Inr accumulatedText"
| "accumulate rt accumulatedText (webhookResponse # rest) =
     bind (extractTextFromResponse rt webhookResponse) (\<lambda>content.
       case content of
         None \<Rightarrow> accumulate rt accumulatedText rest
       | Some v \<Rightarrow>
           if truthy rt v
           then bind (append_value rt accumulatedText v) (\<lambda>acc. accumulate rt acc rest)
           else accumulate rt accumulatedText rest)"





section \<open>The request handlers\<close>

subsection \<open>Collaborators\<close>

text \<open>
  The three remote calls, as functions of an outside world \<open>'w\<close> that they may change:
  \<open>sttService.convertAudioToText\<close> on the uploaded file, the \<open>axios.post\<close> of
  \<open>callWebhookStream\<close> (it fails with a message, or delivers chunks and then either ends
  or reports a stream error) and \<open>ttsService.convertTextToSpeech\<close>, which returns
  base64 text. Every call is recorded in a log, so that the calls of a run can be counted.
\<close>

datatype stream_end = End | Stream_error js_error

record 'w collaborators =
  convertAudioToText :: "'w \<Rightarrow> (js_error + jsstring) \<times> 'w"
  axios_post :: "jsstring \<Rightarrow> 'w \<Rightarrow> (jsstring + buffer list \<times> stream_end) \<times> 'w"
  convertTextToSpeech :: "jsstring \<Rightarrow> 'w \<Rightarrow> (js_error + jsstring) \<times> 'w"

datatype call = STT_call | Webhook_call jsstring | TTS_call jsstring

type_synonym 'w world = "'w \<times> call list"

definition call_stt :: "'w collaborators \<Rightarrow> 'w world \<Rightarrow> (js_error + jsstring) \<times> 'w world" where
  "call_stt c st =
     (case convertAudioToText c (fst st) of (r, w') \<Rightarrow> (r, (w', snd st @ [STT_call])))"

definition call_tts :: "'w collaborators \<Rightarrow> jsstring \<Rightarrow> 'w world \<Rightarrow> (js_error + jsstring) \<times> 'w world" where
  "call_tts c text st =
     (case convertTextToSpeech c text (fst st) of
        (r, w') \<Rightarrow> (r, (w', snd st @ [TTS_call text])))"

text \<open>
  \<open>callWebhookStream\<close>: a failed post is rethrown with a prefixed message, a stream error
  rejects with the error itself, the end of the stream resolves with the messages.
\<close>

definition callWebhookStream ::
  "'n runtime \<Rightarrow> 'w collaborators \<Rightarrow> jsstring \<Rightarrow> 'w world \<Rightarrow> (js_error + 'n json list) \<times> 'w world" where
  "callWebhookStream rt c text st =
     (case axios_post c text (fst st) of
        (r, w') \<Rightarrow>
          ((case r of
              Inl message \<Rightarrow> Inl (Error (js ''Webhook call failed: '' @ message))
            | Inr (chunks, End) \<Rightarrow> Inr (reassemble rt chunks)
            | Inr (chunks, Stream_error e) \<Rightarrow> Inl e),
           (w', snd st @ [Webhook_call text])))"

subsection \<open>\<open>POST /process-recording-stream\<close>\<close>

text \<open>
  The server-sent events, with the payload fields that depend on the run (request id,
  time stamps, fixed messages and the truncated preview of the audio are left out).
  \<open>E_error\<close> carries the error whose message is sent.
\<close>

datatype event =
    E_start
  | E_stt_start
  | E_stt_complete jsstring
  | E_webhook_start
  | E_webhook_complete nat
  | E_tts_start nat jsstring
  | E_tts_result nat jsstring jsstring nat
  | E_tts_error nat jsstring js_error
  | E_complete nat nat
  | E_error js_error

text \<open>
  The loop \<open>for (let i = 0; i < sentences.length; i++)\<close> from index \<open>i\<close> on, over the
  sentences still to come; \<open>len\<close> is \<open>sentences.length\<close>. It returns the events sent
  and the final \<open>successCount\<close>. \<open>E_tts_result\<close> carries \<open>sentenceIndex\<close> (the success
  count), the sentence, the audio and the total; \<open>E_tts_error\<close> carries \<open>sentenceIndex\<close>
  (\<open>i + 1\<close>), the sentence and the error.
\<close>

fun stream_tts ::
  "'w collaborators \<Rightarrow> nat \<Rightarrow> nat \<Rightarrow> nat \<Rightarrow> jsstring list \<Rightarrow> 'w world \<Rightarrow> event list \<times> nat \<times> 'w world" where
  "stream_tts c len i successCount [] st = ([], successCount, st)"
| "stream_tts c len i successCount (sentence # rest) st =
     (if length (trim sentence) < 2 then stream_tts c len (i + 1) successCount rest st
      else (case call_tts c sentence st of
              (Inr ttsBase64, st') \<Rightarrow>
                (case stream_tts c len (i + 1) (successCount + 1) rest st' of
                   (events, n, st'') \<Rightarrow>
                     (E_tts_result (successCount + 1) sentence ttsBase64 len # events, n, st''))
            | (Inl error, st') \<Rightarrow>
                (case stream_tts c len (i + 1) successCount rest st' of
                   (events, n, st'') \<Rightarrow> (E_tts_error (i + 1) sentence error # events, n, st''))))"

definition process_recording_stream ::
  "'n runtime \<Rightarrow> 'w collaborators \<Rightarrow> bool \<Rightarrow> 'w world \<Rightarrow> event list \<times> 'w world" where
  "process_recording_stream rt c has_file st =
     (if \<not> has_file then ([E_error (Error (js ''No audio file provided''))], st)
      else case call_stt c st of
        (Inl error, st1) \<Rightarrow> ([E_start, E_stt_start, E_error error], st1)
      | (Inr sttText, st1) \<Rightarrow>
          (case callWebhookStream rt c sttText st1 of
             (Inl error, st2) \<Rightarrow>
               ([E_start, E_stt_start, E_stt_complete sttText, E_webhook_start, E_error error], st2)
           | (Inr webhookResponses, st2) \<Rightarrow>
               (case accumulate rt [] webhookResponses of
                  Inl error \<Rightarrow>
                    ([E_start, E_stt_start, E_stt_complete sttText, E_webhook_start,
                      E_webhook_complete (length webhookResponses), E_error error], st2)
                | Inr accumulatedText \<Rightarrow>
                    (let sentences = splitIntoSentences accumulatedText
                     in case stream_tts c (length sentences) 0 0 sentences st2 of
                          (events, successCount, st3) \<Rightarrow>
                            ([E_start, E_stt_start, E_stt_complete sttText, E_webhook_start,
                              E_webhook_complete (length webhookResponses),
                              E_tts_start (length sentences) accumulatedText]
                             @ events @ [E_complete (length sentences) successCount], st3)))))"

subsection \<open>\<open>POST /process-recording\<close>\<close>

record tts_result =
  sentenceIndex :: nat
  sentence :: jsstring
  ttsBase64 :: jsstring

text \<open>
  The responses: 400 without a file, 200 with \<open>sttText\<close>, \<open>webhookResponseCount\<close>,
  \<open>accumulatedText\<close> and the results, 500 with the error whose message is sent.
\<close>

datatype response =
    Bad_request
  | Success jsstring nat jsstring "tts_result list"
  | Failure js_error

fun collect_tts ::
  "'w collaborators \<Rightarrow> tts_result list \<Rightarrow> jsstring list \<Rightarrow> 'w world \<Rightarrow> (js_error + tts_result list) \<times> 'w world" where
  "collect_tts c results [] st = (Inr results, st)"
| "collect_tts c results (s # rest) st =
     (if length (trim s) < 2 then collect_tts c results rest st
      else (case call_tts c s st of
              (Inr audio, st') \<Rightarrow>
                collect_tts c
                  (results @ [\<lparr>sentenceIndex = length results + 1, sentence = s, ttsBase64 = audio\<rparr>])
                  rest st'
            | (Inl error, st') \<Rightarrow> (Inl error, st')))"

definition process_recording ::
  "'n runtime \<Rightarrow> 'w collaborators \<Rightarrow> bool \<Rightarrow> 'w world \<Rightarrow> response \<times> 'w world" where
  "process_recording rt c has_file st =
     (if \<not> has_file then (Bad_request, st)
      else case call_stt c st of
        (Inl error, st1) \<Rightarrow> (Failure error, st1)
      | (Inr sttText, st1) \<Rightarrow>
          (case callWebhookStream rt c sttText st1 of
             (Inl error, st2) \<Rightarrow> (Failure error, st2)
           | (Inr webhookResponses, st2) \<Rightarrow>
               (case accumulate rt [] webhookResponses of
                  Inl error \<Rightarrow> (Failure error, st2)
                | Inr accumulatedText \<Rightarrow>
                    (case collect_tts c [] (splitIntoSentences accumulatedText) st2 of
                       (Inl error, st3) \<Rightarrow> (Failure error, st3)
                     | (Inr results, st3) \<Rightarrow>
                         (Success sttText (length webhookResponses) accumulatedText results, st3)))))"

subsection \<open>What the loops report\<close>

text \<open>
  The sentences that are sent to text-to-speech (those the loops do not skip), the
  \<open>sentenceIndex\<close> values of the \<open>tts_result\<close> events of a run, and the sentences of
  its \<open>tts_result\<close> and \<open>tts_error\<close> events.
\<close>

definition synthesized :: "jsstring list \<Rightarrow> jsstring list" where
  "synthesized sentences = filter (\<lambda>s. \<not> length (trim s) < 2) sentences"

fun result_indices :: "event list \<Rightarrow> nat list" where
  "result_indices [] = []"
| "result_indices (E_tts_result k s audio len # events) = k # result_indices events"
| "result_indices (e # events) = result_indices events"

fun reported :: "event list \<Rightarrow> jsstring list" where
  "reported [] = []"
| "reported (E_tts_result k s audio len # events) = s # reported events"
| "reported (E_tts_error k s error # events) = s # reported events"
| "reported (e # events) = reported events"

text \<open>
  Collaborators to evaluate examples with. The world is the number of text-to-speech
  calls made so far: speech-to-text returns \<open>hello\<close>, the webhook streams the given
  chunks, and text-to-speech returns \<open>QUJD\<close> except on the call whose number is \<open>bad\<close>.
\<close>

definition example_collaborators :: "buffer list \<Rightarrow> nat \<Rightarrow> nat collaborators" where
  "example_collaborators chunks bad =
     \<lparr>convertAudioToText = (\<lambda>w. (Inr (js ''hello''), w)),
      axios_post = (\<lambda>text w. (Inr (chunks, End), w)),
      convertTextToSpeech = (\<lambda>text w.
        (if w + 1 = bad then Inl (Error (js ''TTS conversion failed: timeout''))
         else Inr (js ''QUJD''), w + 1))\<rparr>"

definition failing_stt :: "nat collaborators" where
  "failing_stt =
     \<lparr>convertAudioToText =
        (\<lambda>w. (Inl (Error (js ''STT conversion failed: No transcript returned from STT API'')), w)),
      axios_post = (\<lambda>text w. (Inr ([], End), w)),
      convertTextToSpeech = (\<lambda>text w. (Inr (js ''QUJD''), w + 1))\<rparr>"

section \<open>Verification\<close>

subsection \<open>The WAV recombiner\<close>

lemma bind_Inr [simp]: "bind (Inr x) f = f x" by (simp add: bind_def)
lemma bind_Inl [simp]: "bind (Inl e) f = Inl e" by (simp add: bind_def)

lemma le_bytes_value:
  fixes v :: nat
  assumes "v < 2 ^ 32"
  shows "v mod 256 + v div 256 mod 256 * 256 + v div 65536 mod 256 * 65536
         + v div 16777216 mod 256 * 16777216 = v"
proof -
  have a: "v div 16777216 mod 256 = v div 16777216"
    using assms by (simp add: less_mult_imp_div_less)
  have b1: "v div 65536 div 256 = v div 16777216"
    using div_mult2_eq [of v 65536 256] by simp
  have c1: "v div 256 div 256 = v div 65536"
    using div_mult2_eq [of v 256 256] by simp
  have b: "v div 65536 = v div 16777216 * 256 + v div 65536 mod 256"
    using div_mult_mod_eq [of "v div 65536" 256] b1 by simp
  have c: "v div 256 = v div 65536 * 256 + v div 256 mod 256"
    using div_mult_mod_eq [of "v div 256" 256] c1 by simp
  have d: "v = v div 256 * 256 + v mod 256" by simp
  show ?thesis using a b c d by linarith
qed

lemma readUInt32LE_u32le:
  assumes "v < 2 ^ 32" "length pre = off"
  shows "readUInt32LE (pre @ u32le v @ rest) off = Inr v"
  using assms le_bytes_value [of v]
  by (simp add: readUInt32LE_def u32le_def nth_append unat_of_nat mod_mod_cancel)

lemma build_wav_fits:
  assumes "36 + length d < 2 ^ 32"
  shows "build_wav d = Inr (wav_header (length d) @ d)"
  using assms
  by (simp add: build_wav_def wav_header_def Let_def write_bytes_def writeUInt32LE_def
      writeUInt16LE_def ascii_def u32le_def u16le_def sampleRate_def numChannels_def
      bitsPerSample_def byteRate_def blockAlign_def)

lemma build_wav_overflow:
  assumes "\<not> 36 + length d < 2 ^ 32"
  shows "build_wav d = Inl RangeError"
  using assms
  by (simp add: build_wav_def Let_def write_bytes_def writeUInt32LE_def ascii_def)

lemma length_wav_header: "length (wav_header n) = 44"
  by (simp add: wav_header_def ascii_def u32le_def u16le_def)

lemma wav_header_field4:
  assumes "36 + n < 2 ^ 32"
  shows "readUInt32LE (wav_header n @ d) 4 = Inr (36 + n)"
proof -
  have eq: "wav_header n @ d = ascii ''RIFF'' @ u32le (36 + n) @ (drop 8 (wav_header n) @ d)"
    by (simp add: wav_header_def ascii_def u32le_def)
  show ?thesis
    by (subst eq, rule readUInt32LE_u32le) (use assms in \<open>simp_all add: ascii_def\<close>)
qed

lemma wav_header_field40:
  assumes "36 + n < 2 ^ 32"
  shows "readUInt32LE (wav_header n @ d) 40 = Inr n"
proof -
  have eq: "wav_header n @ d = take 40 (wav_header n) @ u32le n @ d"
    by (simp add: wav_header_def ascii_def u32le_def u16le_def)
  show ?thesis
    by (subst eq, rule readUInt32LE_u32le) (use assms in \<open>simp_all add: length_wav_header\<close>)
qed

lemma readUInt32LE_in_range:
  "offset + 4 \<le> length buf \<Longrightarrow> \<exists>v. readUInt32LE buf offset = Inr v"
  by (simp add: readUInt32LE_def)

lemma scan_data_result:
  "\<exists>start size. scan_data buf i = Inr (start, size) \<and>
     (start = -1 \<and> size = 0 \<or>
      (\<exists>j\<ge>i. start = int j + 8 \<and> j + 8 < length buf \<and> marker_at buf j \<and>
         readUInt32LE buf (j + 4) = Inr size))"
proof (induction buf i rule: scan_data.induct)
  case (1 buf i)
  show ?case
  proof (cases "i + 8 < length buf")
    case False
    then show ?thesis by (simp add: scan_data.simps [of buf i])
  next
    case inside: True
    show ?thesis
    proof (cases "marker_at buf i")
      case True
      from inside obtain v where v: "readUInt32LE buf (i + 4) = Inr v"
        using readUInt32LE_in_range [of "i + 4" buf] by auto
      have "scan_data buf i = Inr (int i + 8, v)"
        using inside True v by (simp add: scan_data.simps [of buf i])
      then show ?thesis using inside True v by auto
    next
      case False
      have eq: "scan_data buf i = scan_data buf (Suc i)"
        using inside False by (simp add: scan_data.simps [of buf i])
      from "1.IH" [OF inside False] show ?thesis
        unfolding eq by (metis Suc_leD)
    qed
  qed
qed

lemma scan_data_no_marker:
  "(\<forall>j\<ge>i. marker_at buf j \<longrightarrow> length buf \<le> j + 8) \<Longrightarrow> scan_data buf i = Inr (-1, 0)"
proof (induction buf i rule: scan_data.induct)
  case (1 buf i)
  show ?case
  proof (cases "i + 8 < length buf")
    case False
    then show ?thesis by (simp add: scan_data.simps [of buf i])
  next
    case True
    then have nm: "\<not> marker_at buf i" using "1.prems" by fastforce
    have "scan_data buf i = scan_data buf (Suc i)"
      using True nm by (simp add: scan_data.simps [of buf i])
    moreover have "scan_data buf (Suc i) = Inr (-1, 0)"
      using "1.IH" [OF True nm] "1.prems" by simp
    ultimately show ?thesis by simp
  qed
qed

lemma audioData_total: "audioData buf = Inr (payload buf)"
proof -
  obtain s z where "find_data_chunk buf = Inr (s, z)"
    using scan_data_result [of buf 0] unfolding find_data_chunk_def by blast
  then show ?thesis by (simp add: payload_def audioData_def)
qed

lemma combine_concat:
  "combine acc audioBuffers = Inr (acc @ concat (map payload audioBuffers))"
  by (induction audioBuffers arbitrary: acc) (simp_all add: audioData_total)

lemma length_concat_payload:
  "length (concat (map payload audioBuffers)) = total_payload audioBuffers"
  by (induction audioBuffers) (simp_all add: total_payload_def)

lemma payload_no_chunk: "find_data_chunk buf = Inr (-1, 0) \<Longrightarrow> payload buf = []"
  by (simp add: payload_def audioData_def)

lemma payload_zero_size: "find_data_chunk buf = Inr (start, 0) \<Longrightarrow> payload buf = []"
  by (simp add: payload_def audioData_def)

lemma merge_wav_eq:
  "merge_wav audioBuffers =
     (if 36 + total_payload audioBuffers < 2 ^ 32
      then Inr (wav_header (total_payload audioBuffers) @ concat (map payload audioBuffers))
      else Inl RangeError)"
  using build_wav_fits [of "concat (map payload audioBuffers)"]
    build_wav_overflow [of "concat (map payload audioBuffers)"]
  by (simp add: merge_wav_def combine_concat length_concat_payload)

lemma marker_at_bytes:
  "i + 4 \<le> length buf \<Longrightarrow>
   marker_at buf i \<longleftrightarrow>
     buf ! i = 0x64 \<and> buf ! (i + 1) = 0x61 \<and> buf ! (i + 2) = 0x74 \<and> buf ! (i + 3) = 0x61"
  by (simp add: marker_at_def byte_at_def)

lemma scan_data_first_marker:
  "i \<le> j \<Longrightarrow> j + 8 < length buf \<Longrightarrow> marker_at buf j \<Longrightarrow>
   (\<forall>k. i \<le> k \<and> k < j \<longrightarrow> \<not> marker_at buf k) \<Longrightarrow>
   scan_data buf i = bind (readUInt32LE buf (j + 4)) (\<lambda>size. Inr (int j + 8, size))"
proof (induction buf i rule: scan_data.induct)
  case (1 buf i)
  show ?case
  proof (cases "i = j")
    case True
    with "1.prems" show ?thesis by (simp add: scan_data.simps [of buf j])
  next
    case False
    with "1.prems" have inside: "i + 8 < length buf" and nm: "\<not> marker_at buf i"
      and le: "Suc i \<le> j" by auto
    have "scan_data buf i = scan_data buf (Suc i)"
      using inside nm by (simp add: scan_data.simps [of buf i])
    also have "\<dots> = bind (readUInt32LE buf (j + 4)) (\<lambda>size. Inr (int j + 8, size))"
      using "1.IH" [OF inside nm le] "1.prems" by simp
    finally show ?thesis .
  qed
qed

lemma payload_first_marker:
  assumes "i + 8 < length buf"
    and "buf ! i = 0x64 \<and> buf ! (i + 1) = 0x61 \<and> buf ! (i + 2) = 0x74 \<and> buf ! (i + 3) = 0x61"
    and "\<forall>j<i. \<not> (buf ! j = 0x64 \<and> buf ! (j + 1) = 0x61 \<and> buf ! (j + 2) = 0x74 \<and>
            buf ! (j + 3) = 0x61)"
  shows "payload buf =
     take (unat (buf ! (i + 4)) + unat (buf ! (i + 5)) * 2 ^ 8 + unat (buf ! (i + 6)) * 2 ^ 16
           + unat (buf ! (i + 7)) * 2 ^ 24) (drop (i + 8) buf)"
proof -
  let ?size = "unat (buf ! (i + 4)) + unat (buf ! (i + 5)) * 2 ^ 8 + unat (buf ! (i + 6)) * 2 ^ 16
           + unat (buf ! (i + 7)) * 2 ^ 24"
  have m: "marker_at buf i" using assms(1,2) by (simp add: marker_at_bytes)
  have nm: "\<forall>k. 0 \<le> k \<and> k < i \<longrightarrow> \<not> marker_at buf k"
  proof (intro allI impI)
    fix k assume "0 \<le> k \<and> k < i"
    then have "k + 4 \<le> length buf" "k < i" using assms(1) by auto
    then show "\<not> marker_at buf k" using assms(3) by (simp add: marker_at_bytes)
  qed
  have r: "readUInt32LE buf (i + 4) = Inr ?size"
    using assms(1) by (simp add: readUInt32LE_def ac_simps)
  have "find_data_chunk buf = Inr (int i + 8, ?size)"
    unfolding find_data_chunk_def
    using scan_data_first_marker [OF _ assms(1) m nm] r by (simp add: bind_def)
  moreover have "nat (int i + 8) = i + 8" by arith
  ultimately show ?thesis
    by (simp add: payload_def audioData_def slice_def drop_take bind_def)
qed

lemma payload_no_marker_in_range:
  assumes "\<forall>i. i + 8 < length buf \<longrightarrow>
      \<not> (buf ! i = 0x64 \<and> buf ! (i + 1) = 0x61 \<and> buf ! (i + 2) = 0x74 \<and> buf ! (i + 3) = 0x61)"
  shows "payload buf = []"
proof -
  have "\<forall>j\<ge>0. marker_at buf j \<longrightarrow> length buf \<le> j + 8"
  proof (intro allI impI)
    fix j assume "0 \<le> j" and m: "marker_at buf j"
    show "length buf \<le> j + 8"
    proof (rule ccontr)
      assume "\<not> length buf \<le> j + 8"
      then have inside: "j + 8 < length buf" by simp
      then have "j + 4 \<le> length buf" by simp
      from m marker_at_bytes [OF this]
      have "buf ! j = 0x64 \<and> buf ! (j + 1) = 0x61 \<and> buf ! (j + 2) = 0x74 \<and>
          buf ! (j + 3) = 0x61"
        by blast
      with assms inside show False by blast
    qed
  qed
  then have "find_data_chunk buf = Inr (-1, 0)"
    unfolding find_data_chunk_def by (rule scan_data_no_marker)
  then show ?thesis by (rule payload_no_chunk)
qed

text \<open>
  C2. Whenever lines 378 to 431 produce \<open>wavBuffer\<close> (they do whenever the RIFF size
  \<open>36 + total\<close> fits the 32-bit field; otherwise \<open>writeUInt32LE\<close> throws), the buffer is
  44 bytes longer than the sum of the extracted payload lengths, its little-endian field
  at offset 4 holds 36 plus that sum, its field at offset 40 holds that sum, and the bytes
  after the header are the extracted payloads in input order. The payload extracted from
  a segment is fixed by the bytes of the segment: when the bytes \<open>64 61 74 61\<close> stand at
  an offset \<open>i\<close> with \<open>i + 8 < length\<close> and at no smaller offset, it is the declared
  number of bytes (the little-endian value at \<open>i + 4\<close>, none when that is zero) from
  offset \<open>i + 8\<close> on, cut off at the end of the segment; when they stand at no such
  offset, it is empty.
\<close>

theorem merged_wav_layout:
  "(36 + total_payload audioBuffers < 2 ^ 32 \<longrightarrow> (\<exists>w. merge_wav audioBuffers = Inr w)) \<and>
   (\<forall>w. merge_wav audioBuffers = Inr w \<longrightarrow>
      length w = 44 + total_payload audioBuffers \<and>
      readUInt32LE w 4 = Inr (36 + total_payload audioBuffers) \<and>
      readUInt32LE w 40 = Inr (total_payload audioBuffers) \<and>
      drop 44 w = concat (map payload audioBuffers)) \<and>
   (\<forall>buf. audioData buf = Inr (payload buf) \<and>
      ((\<forall>i. \<not> marker_at buf i) \<longrightarrow> payload buf = []) \<and>
      (\<forall>start. find_data_chunk buf = Inr (start, 0) \<longrightarrow> payload buf = []) \<and>
      (\<forall>i size. find_data_chunk buf = Inr (int i + 8, size) \<and> 0 < size \<longrightarrow>
         payload buf = slice buf (i + 8) (i + 8 + size))) \<and>
   (\<forall>buf i. i + 8 < length buf \<and>
        (buf ! i = 0x64 \<and> buf ! (i + 1) = 0x61 \<and> buf ! (i + 2) = 0x74 \<and>
         buf ! (i + 3) = 0x61) \<and>
        (\<forall>j<i. \<not> (buf ! j = 0x64 \<and> buf ! (j + 1) = 0x61 \<and> buf ! (j + 2) = 0x74 \<and>
           buf ! (j + 3) = 0x61)) \<longrightarrow>
      payload buf =
        take (unat (buf ! (i + 4)) + unat (buf ! (i + 5)) * 2 ^ 8 +
              unat (buf ! (i + 6)) * 2 ^ 16 + unat (buf ! (i + 7)) * 2 ^ 24)
          (drop (i + 8) buf)) \<and>
   (\<forall>buf. (\<forall>i. i + 8 < length buf \<longrightarrow>
        \<not> (buf ! i = 0x64 \<and> buf ! (i + 1) = 0x61 \<and> buf ! (i + 2) = 0x74 \<and>
           buf ! (i + 3) = 0x61)) \<longrightarrow>
      payload buf = [])"
proof (intro conjI allI impI)
  assume "36 + total_payload audioBuffers < 2 ^ 32"
  then show "\<exists>w. merge_wav audioBuffers = Inr w"
    by (simp add: merge_wav_eq)
next
  fix w assume w: "merge_wav audioBuffers = Inr w"
  then have fits: "36 + total_payload audioBuffers < 2 ^ 32"
    and weq: "w = wav_header (total_payload audioBuffers) @ concat (map payload audioBuffers)"
    by (auto simp: merge_wav_eq split: if_splits)
  show "length w = 44 + total_payload audioBuffers"
    by (simp add: weq length_wav_header length_concat_payload)
  show "readUInt32LE w 4 = Inr (36 + total_payload audioBuffers)"
    unfolding weq using fits by (rule wav_header_field4)
  show "readUInt32LE w 40 = Inr (total_payload audioBuffers)"
    unfolding weq using fits by (rule wav_header_field40)
  show "drop 44 w = concat (map payload audioBuffers)"
    by (simp add: weq length_wav_header)
next
  fix buf show "audioData buf = Inr (payload buf)" by (rule audioData_total)
next
  fix buf assume "\<forall>i. \<not> marker_at buf i"
  then have "find_data_chunk buf = Inr (-1, 0)"
    unfolding find_data_chunk_def by (intro scan_data_no_marker) simp
  then show "payload buf = []" by (rule payload_no_chunk)
next
  fix buf start assume "find_data_chunk buf = Inr (start, 0)"
  then show "payload buf = []" by (rule payload_zero_size)
next
  fix buf i size assume "find_data_chunk buf = Inr (int i + 8, size) \<and> 0 < size"
  moreover have "nat (int i + 8) = i + 8" by arith
  ultimately show "payload buf = slice buf (i + 8) (i + 8 + size)"
    by (simp add: payload_def audioData_def)
next
  fix buf :: buffer and i
  assume h: "i + 8 < length buf \<and>
        (buf ! i = 0x64 \<and> buf ! (i + 1) = 0x61 \<and> buf ! (i + 2) = 0x74 \<and>
         buf ! (i + 3) = 0x61) \<and>
        (\<forall>j<i. \<not> (buf ! j = 0x64 \<and> buf ! (j + 1) = 0x61 \<and> buf ! (j + 2) = 0x74 \<and>
           buf ! (j + 3) = 0x61))"
  show "payload buf =
        take (unat (buf ! (i + 4)) + unat (buf ! (i + 5)) * 2 ^ 8 +
              unat (buf ! (i + 6)) * 2 ^ 16 + unat (buf ! (i + 7)) * 2 ^ 24)
          (drop (i + 8) buf)"
    by (rule payload_first_marker) (use h in blast)+
next
  fix buf :: buffer
  assume "\<forall>i. i + 8 < length buf \<longrightarrow>
        \<not> (buf ! i = 0x64 \<and> buf ! (i + 1) = 0x61 \<and> buf ! (i + 2) = 0x74 \<and>
           buf ! (i + 3) = 0x61)"
  then show "payload buf = []" by (rule payload_no_marker_in_range)
qed

lemma example_segment_first_marker:
  fixes buf :: buffer
  assumes "take 36 buf = take 36 example_segment_a" "36 < length buf"
  shows "\<forall>j<36. \<not> (buf ! j = 0x64 \<and> buf ! (j + 1) = 0x61 \<and> buf ! (j + 2) = 0x74 \<and>
           buf ! (j + 3) = 0x61)"
proof (intro allI impI)
  fix j :: nat assume j: "j < 36"
  have "take 36 buf ! j \<in> set (take 36 buf)"
    using j assms(2) by (intro nth_mem) simp
  moreover have "take 36 buf ! j = buf ! j" using j by simp
  moreover have "0x64 \<notin> set (take 36 example_segment_a)"
    by (simp add: example_segment_a_def)
  ultimately show "\<not> (buf ! j = 0x64 \<and> buf ! (j + 1) = 0x61 \<and> buf ! (j + 2) = 0x74 \<and>
           buf ! (j + 3) = 0x61)"
    using assms(1) by metis
qed

theorem merged_wav_layout_witness:
  "payload example_segment_a = [1, 2, 3, 4] \<and> payload example_segment_b = [9, 8] \<and>
   (\<exists>w. merge_wav [example_segment_a, example_segment_b] = Inr w \<and>
       length w = 50 \<and> readUInt32LE w 4 = Inr 42 \<and> readUInt32LE w 40 = Inr 6 \<and>
       drop 44 w = [1, 2, 3, 4, 9, 8])"
proof -
  note layout = merged_wav_layout [of "[example_segment_a, example_segment_b]"]
  note found = layout [THEN conjunct2, THEN conjunct2, THEN conjunct2, THEN conjunct1,
      rule_format]
  have a: "payload example_segment_a = [1, 2, 3, 4]"
  proof -
    have "payload example_segment_a =
        take (unat (example_segment_a ! (36 + 4)) + unat (example_segment_a ! (36 + 5)) * 2 ^ 8 +
              unat (example_segment_a ! (36 + 6)) * 2 ^ 16 +
              unat (example_segment_a ! (36 + 7)) * 2 ^ 24)
          (drop (36 + 8) example_segment_a)"
    proof (rule found, intro conjI)
      show "\<forall>j<36. \<not> (example_segment_a ! j = 0x64 \<and> example_segment_a ! (j + 1) = 0x61 \<and>
          example_segment_a ! (j + 2) = 0x74 \<and> example_segment_a ! (j + 3) = 0x61)"
        by (rule example_segment_first_marker) (simp_all add: example_segment_a_def)
    qed (simp_all add: example_segment_a_def)
    then show ?thesis by (simp add: example_segment_a_def)
  qed
  have b: "payload example_segment_b = [9, 8]"
  proof -
    have "payload example_segment_b =
        take (unat (example_segment_b ! (36 + 4)) + unat (example_segment_b ! (36 + 5)) * 2 ^ 8 +
              unat (example_segment_b ! (36 + 6)) * 2 ^ 16 +
              unat (example_segment_b ! (36 + 7)) * 2 ^ 24)
          (drop (36 + 8) example_segment_b)"
    proof (rule found, intro conjI)
      show "\<forall>j<36. \<not> (example_segment_b ! j = 0x64 \<and> example_segment_b ! (j + 1) = 0x61 \<and>
          example_segment_b ! (j + 2) = 0x74 \<and> example_segment_b ! (j + 3) = 0x61)"
        by (rule example_segment_first_marker)
          (simp_all add: example_segment_a_def example_segment_b_def)
    qed (simp_all add: example_segment_b_def)
    then show ?thesis by (simp add: example_segment_b_def)
  qed
  have t: "total_payload [example_segment_a, example_segment_b] = 6"
    by (simp add: total_payload_def a b)
  have c: "concat (map payload [example_segment_a, example_segment_b]) = [1, 2, 3, 4, 9, 8]"
    by (simp add: a b)
  from layout [THEN conjunct1] layout [THEN conjunct2, THEN conjunct1] a b
  show ?thesis unfolding t c by auto
qed

text \<open>
  C10. The scan never throws. When it reports a chunk, the marker it matched starts at an
  offset \<open>i\<close> with \<open>i + 8 < length\<close> (that is, \<open>i \<le> length - 9\<close>), so the size field
  read at \<open>i + 4\<close> lies inside the buffer. A buffer whose markers all start within its
  last 8 bytes is treated as having none and contributes no bytes.
\<close>

theorem scan_stays_in_bounds:
  "(\<exists>start size. find_data_chunk buf = Inr (start, size) \<and>
      (start = -1 \<and> size = 0 \<or>
       (\<exists>i. start = int i + 8 \<and> i + 8 < length buf \<and> marker_at buf i \<and>
            i + 4 + 4 \<le> length buf \<and> readUInt32LE buf (i + 4) = Inr size))) \<and>
   ((\<forall>i. marker_at buf i \<longrightarrow> length buf \<le> i + 8) \<longrightarrow>
      find_data_chunk buf = Inr (-1, 0) \<and> audioData buf = Inr [])"
proof (intro conjI impI)
  from scan_data_result [of buf 0]
  show "\<exists>start size. find_data_chunk buf = Inr (start, size) \<and>
      (start = -1 \<and> size = 0 \<or>
       (\<exists>i. start = int i + 8 \<and> i + 8 < length buf \<and> marker_at buf i \<and>
            i + 4 + 4 \<le> length buf \<and> readUInt32LE buf (i + 4) = Inr size))"
    unfolding find_data_chunk_def by (elim exE conjE disjE) auto
next
  assume late: "\<forall>i. marker_at buf i \<longrightarrow> length buf \<le> i + 8"
  then show none: "find_data_chunk buf = Inr (-1, 0)"
    unfolding find_data_chunk_def by (intro scan_data_no_marker) simp
  then show "audioData buf = Inr []"
    by (simp add: audioData_def)
qed

theorem scan_stays_in_bounds_witness:
  "marker_at [1, 2, 3, 0x64, 0x61, 0x74, 0x61, 4, 0, 0, 0] 3 \<and>
   find_data_chunk [1, 2, 3, 0x64, 0x61, 0x74, 0x61, 4, 0, 0, 0] = Inr (-1, 0) \<and>
   audioData [1, 2, 3, 0x64, 0x61, 0x74, 0x61, 4, 0, 0, 0] = Inr []"
proof -
  let ?buf = "[1, 2, 3, 0x64, 0x61, 0x74, 0x61, 4, 0, 0, 0] :: buffer"
  have late: "\<forall>i. marker_at ?buf i \<longrightarrow> length ?buf \<le> i + 8"
  proof (intro allI impI)
    fix i assume m: "marker_at ?buf i"
    show "length ?buf \<le> i + 8"
    proof (rule ccontr)
      assume "\<not> length ?buf \<le> i + 8"
      then have "i = 0 \<or> i = 1 \<or> i = 2" by auto
      with m show False by (auto simp: marker_at_def byte_at_def)
    qed
  qed
  have "marker_at ?buf 3" by (simp add: marker_at_def byte_at_def)
  with scan_stays_in_bounds [of ?buf] late show ?thesis by blast
qed

subsection \<open>Sentence segmentation\<close>

lemma last_dropWhile: "dropWhile P xs \<noteq> [] \<Longrightarrow> last (dropWhile P xs) = last xs"
  by (induction xs) (auto split: if_splits)

lemma dropWhile_all_conv: "(\<forall>c\<in>set (dropWhile P xs). P c) \<longleftrightarrow> dropWhile P xs = []"
proof
  assume all: "\<forall>c\<in>set (dropWhile P xs). P c"
  show "dropWhile P xs = []"
  proof (rule ccontr)
    assume ne: "dropWhile P xs \<noteq> []"
    then have "hd (dropWhile P xs) \<in> set (dropWhile P xs)" by (rule hd_in_set)
    with all hd_dropWhile [OF ne] show False by blast
  qed
next
  assume "dropWhile P xs = []"
  then show "\<forall>c\<in>set (dropWhile P xs). P c" by (simp only: list.set ball_empty)
qed

lemma trim_eq_Nil: "trim s = [] \<longleftrightarrow> (\<forall>c\<in>set s. is_ws c)"
proof -
  have "trim s = [] \<longleftrightarrow> dropWhile is_ws (rev (dropWhile is_ws s)) = []"
    by (simp only: trim_def rev_is_Nil_conv)
  also have "\<dots> \<longleftrightarrow> (\<forall>c\<in>set (dropWhile is_ws s). is_ws c)"
    by (simp only: dropWhile_eq_Nil_conv set_rev)
  also have "\<dots> \<longleftrightarrow> dropWhile is_ws s = []"
    by (rule dropWhile_all_conv)
  also have "\<dots> \<longleftrightarrow> (\<forall>c\<in>set s. is_ws c)"
    by (simp only: dropWhile_eq_Nil_conv)
  finally show ?thesis .
qed

lemma trim_ends:
  assumes "trim s \<noteq> []"
  shows "\<not> is_ws (hd (trim s))" and "\<not> is_ws (last (trim s))"
proof -
  define d where "d = dropWhile is_ws s"
  define e where "e = dropWhile is_ws (rev d)"
  have t: "trim s = rev e" by (simp add: trim_def e_def d_def)
  from assms have e: "e \<noteq> []" by (simp add: t)
  have d: "d \<noteq> []" using e by (auto simp: e_def)
  have "last (trim s) = hd e" using e by (simp add: t last_rev)
  then show "\<not> is_ws (last (trim s))" using hd_dropWhile [of is_ws "rev d"] e by (simp add: e_def)
  have "hd (trim s) = last e" using e by (simp add: t hd_rev)
  also have "\<dots> = last (rev d)" using e unfolding e_def by (rule last_dropWhile)
  also have "\<dots> = hd d" using d by (simp add: last_rev)
  finally show "\<not> is_ws (hd (trim s))" using hd_dropWhile [of is_ws s] d by (simp add: d_def)
qed

lemma trim_id:
  assumes "s \<noteq> []" "\<not> is_ws (hd s)" "\<not> is_ws (last s)"
  shows "trim s = s"
proof -
  have 1: "dropWhile is_ws s = s" using assms by (cases s) auto
  have "rev s \<noteq> []" "\<not> is_ws (hd (rev s))" using assms by (simp_all add: hd_rev)
  then have 2: "dropWhile is_ws (rev s) = rev s" by (cases "rev s") auto
  show ?thesis by (simp add: trim_def 1 2)
qed

lemma trim_trim: "trim (trim s) = trim s"
proof (cases "trim s = []")
  case True
  have "trim [] = []" by (simp add: trim_def)
  with True show ?thesis by simp
next
  case False
  then show ?thesis using trim_ends [OF False] by (intro trim_id)
qed

lemma trimmed_nonempty_elem:
  "s \<in> set (trimmed_nonempty xs) \<Longrightarrow> s \<noteq> [] \<and> trim s = s"
  by (auto simp: trimmed_nonempty_def trim_trim)

lemma trimmed_nonempty_nonempty:
  "x \<in> set xs \<Longrightarrow> trim x \<noteq> [] \<Longrightarrow> trimmed_nonempty xs \<noteq> []"
  by (auto simp: trimmed_nonempty_def filter_empty_conv)

lemma match_here_shape:
  assumes "match_here B T s = Some (m, rest)"
  shows "\<exists>b t. m = b @ t \<and> b \<noteq> [] \<and> t \<noteq> [] \<and> (\<forall>c\<in>set b. B c) \<and> (\<forall>c\<in>set t. T c) \<and>
           s = m @ rest \<and> (rest = [] \<or> \<not> T (hd rest))"
proof -
  let ?b = "takeWhile B s" and ?r = "dropWhile B s"
  let ?t = "takeWhile T ?r"
  from assms have b: "?b \<noteq> []" and t: "?t \<noteq> []" and m: "m = ?b @ ?t"
    and rest: "rest = dropWhile T ?r"
    by (auto simp: match_here_def Let_def split: if_splits)
  have "s = m @ rest" unfolding m rest by simp
  moreover have "rest = [] \<or> \<not> T (hd rest)"
    unfolding rest using hd_dropWhile [of T ?r] by blast
  moreover have "\<forall>c\<in>set ?b. B c" by (auto dest: set_takeWhileD)
  moreover have "\<forall>c\<in>set ?t. T c" by (auto dest: set_takeWhileD)
  ultimately show ?thesis using b t m by blast
qed

lemma match_all_shape:
  "m \<in> set (match_all B T s) \<Longrightarrow>
     \<exists>b t. m = b @ t \<and> b \<noteq> [] \<and> t \<noteq> [] \<and> (\<forall>c\<in>set b. B c) \<and> (\<forall>c\<in>set t. T c)"
proof (induction B T s rule: match_all.induct)
  case (1 B T)
  then show ?case by simp
next
  case (2 B T c cs)
  show ?case
  proof (cases "match_here B T (c # cs)")
    case None
    with 2 show ?thesis by simp
  next
    case (Some p)
    obtain m' rest where p: "p = (m', rest)" by (cases p)
    from "2.prems" Some p have "m = m' \<or> m \<in> set (match_all B T rest)" by simp
    then show ?thesis
    proof
      assume "m = m'"
      with match_here_shape [of B T "c # cs" m' rest] Some p show ?thesis by blast
    next
      assume "m \<in> set (match_all B T rest)"
      with "2.IH"(2) [OF Some p [symmetric]] show ?thesis by blast
    qed
  qed
qed

lemma terminator_not_ws: "is_terminator c \<Longrightarrow> \<not> is_ws c"
  by (auto simp: is_terminator_def is_ws_def)

lemma match_trim_nonempty:
  assumes "m \<in> set (match_all is_body is_terminator s)"
  shows "trim m \<noteq> []"
proof -
  from match_all_shape [OF assms] obtain b t where
    "m = b @ t" "t \<noteq> []" "\<forall>c\<in>set t. is_terminator c" by blast
  then obtain c where "c \<in> set m" "is_terminator c" by (cases t) auto
  then show ?thesis using terminator_not_ws by (auto simp: trim_eq_Nil)
qed

lemma split_on_hd:
  "split_on d s \<noteq> [] \<and> hd (split_on d s) = takeWhile (\<lambda>c. c \<noteq> d) s"
  by (induction s) (auto split: list.splits)

lemma split_sep_hd:
  "split_sep piece s \<noteq> [] \<and> (\<exists>r. hd (split_sep piece s) = piece @ r)"
  by (induction piece s rule: split_sep.induct) auto

lemma trim_nonempty_hd:
  assumes "trim x \<noteq> []"
  shows "\<not> is_ws (hd (trim x))" "trim x = hd (trim x) # tl (trim x)"
  using assms trim_ends(1) [OF assms] by simp_all

text \<open>
  C9. \<open>splitIntoSentences\<close> returns no sentence exactly when every character of the
  input is white space (in particular for the empty input); otherwise it returns at least
  one sentence; and a sentence it returns is never empty after trimming.
\<close>

theorem splitIntoSentences_nonempty:
  "(splitIntoSentences text = [] \<longleftrightarrow> (\<forall>c\<in>set text. is_ws c)) \<and>
   (length (trim text) \<noteq> 0 \<longrightarrow> length (splitIntoSentences text) \<ge> 1) \<and>
   (\<forall>s\<in>set (splitIntoSentences text). length (trim s) \<noteq> 0)"
proof (cases "trim text = []")
  case True
  then have "splitIntoSentences text = []" by (simp add: splitIntoSentences_def)
  with True show ?thesis by (simp add: trim_eq_Nil)
next
  case False
  define t where "t = trim text"
  obtain c cs where t: "t = c # cs" and c: "\<not> is_ws c"
    using trim_nonempty_hd [OF False] unfolding t_def by metis
  have tt: "trim t = t" unfolding t_def by (rule trim_trim)
  have ne: "splitIntoSentences text \<noteq> []"
  proof (cases "match_all is_body is_terminator t = []")
    case m: False
    then obtain m where "m \<in> set (match_all is_body is_terminator t)"
      by (cases "match_all is_body is_terminator t") auto
    then have "trimmed_nonempty (match_all is_body is_terminator t) \<noteq> []"
      using match_trim_nonempty trimmed_nonempty_nonempty by blast
    then show ?thesis using False m by (simp add: splitIntoSentences_def Let_def t_def)
  next
    case m: True
    have "split_on newline t \<noteq> []"
      using split_on_hd [of newline t] by blast
    then have hd2: "hd (split_on newline t) \<in> set (split_on newline t)"
      by (rule hd_in_set)
    have "c \<noteq> newline" using c by (auto simp: is_ws_def newline_def)
    then have "c \<in> set (hd (split_on newline t))"
      using split_on_hd [of newline t] by (simp add: t)
    then have "trim (hd (split_on newline t)) \<noteq> []"
      using c by (auto simp: trim_eq_Nil)
    with hd2 have s2: "trimmed_nonempty (split_on newline t) \<noteq> []"
      by (rule trimmed_nonempty_nonempty)
    have "sep_here (c # cs) = 0" using c by (simp add: sep_here_def)
    then have "split_sep [] t = split_sep [c] cs" by (simp add: t)
    moreover have "split_sep [c] cs \<noteq> []"
      using split_sep_hd [of "[c]" cs] by blast
    then have "hd (split_sep [c] cs) \<in> set (split_sep [c] cs)"
      by (rule hd_in_set)
    moreover have "\<exists>r. hd (split_sep [c] cs) = [c] @ r"
      using split_sep_hd [of "[c]" cs] by blast
    ultimately obtain x where "x \<in> set (split_sep [] t)" "c \<in> set x" by auto
    then have s3: "trimmed_nonempty (split_sep [] t) \<noteq> []"
      using c trimmed_nonempty_nonempty [of x] by (auto simp: trim_eq_Nil)
    show ?thesis
      using False m s2 s3 by (simp add: splitIntoSentences_def Let_def t_def [symmetric])
  qed
  have elems: "trim s \<noteq> []" if "s \<in> set (splitIntoSentences text)" for s
  proof -
    from that False have "s \<in> set (trimmed_nonempty (match_all is_body is_terminator t)) \<or>
        s \<in> set (trimmed_nonempty (split_on newline t)) \<or>
        s \<in> set (trimmed_nonempty (split_sep [] t)) \<or> s = t"
      by (auto simp: splitIntoSentences_def Let_def t_def [symmetric] split: if_splits)
    then show ?thesis
      using trimmed_nonempty_elem tt t by (elim disjE) auto
  qed
  from ne have "length (splitIntoSentences text) \<ge> 1"
    by (cases "splitIntoSentences text") auto
  with ne elems False show ?thesis by (auto simp: trim_eq_Nil)
qed

lemmas sentence_eval = splitIntoSentences_def trimmed_nonempty_def trim_def is_ws_def
  match_here_def is_body_def is_terminator_def newline_def js_def
  sep_here_def is_upper_def Let_def

lemma split_example: "splitIntoSentences (js ''Hi. Yo.'') = [js ''Hi.'', js ''Yo.'']"
  by (simp add: sentence_eval)

theorem splitIntoSentences_nonempty_witness:
  "splitIntoSentences (js ''  '') = [] \<and>
   splitIntoSentences (js ''Hi. Yo.'') = [js ''Hi.'', js ''Yo.''] \<and>
   length (trim (js ''Hi.'')) \<noteq> 0 \<and> length (trim (js ''Yo.'')) \<noteq> 0"
proof -
  have "\<forall>c\<in>set (js ''  ''). is_ws c" by (simp add: js_def is_ws_def)
  with splitIntoSentences_nonempty [of "js ''  ''"]
  have 1: "splitIntoSentences (js ''  '') = []" by blast
  from splitIntoSentences_nonempty [of "js ''Hi. Yo.''"]
  have "\<forall>s\<in>set (splitIntoSentences (js ''Hi. Yo.'')). length (trim s) \<noteq> 0" by blast
  then show ?thesis using 1 by (simp add: split_example)
qed

lemma trimmed_nonempty_matches:
  "trimmed_nonempty (match_all is_body is_terminator s) = map trim (match_all is_body is_terminator s)"
  unfolding trimmed_nonempty_def using match_trim_nonempty [of _ s] by (intro filter_True) auto

text \<open>
  C4, as the code has it. The terminator class of the first stage holds the closing
  parenthesis besides \<open>.\<close> \<open>!\<close> \<open>?\<close> and the two danda marks, and a run of
  non-terminators does not extend over a newline. Whenever the pattern matches at all,
  \<open>splitIntoSentences\<close> returns the matches, each trimmed (none is empty after
  trimming), and every match is a non-empty run of characters that are neither
  terminators nor newlines followed by a non-empty run of terminators.
\<close>

theorem punctuation_stage:
  "match_all is_body is_terminator (trim text) \<noteq> [] \<longrightarrow>
     splitIntoSentences text = trimmed_nonempty (match_all is_body is_terminator (trim text)) \<and>
     splitIntoSentences text = map trim (match_all is_body is_terminator (trim text)) \<and>
     (\<forall>m\<in>set (match_all is_body is_terminator (trim text)).
        \<exists>b t. m = b @ t \<and> b \<noteq> [] \<and> t \<noteq> [] \<and>
          (\<forall>c\<in>set b. c \<notin> {0x2E, 0x21, 0x3F, 0x0964, 0x0965, 0x29} \<and> c \<noteq> 0x0A) \<and>
          (\<forall>c\<in>set t. c \<in> {0x2E, 0x21, 0x3F, 0x0964, 0x0965, 0x29}))"
proof (intro impI conjI ballI)
  assume ne: "match_all is_body is_terminator (trim text) \<noteq> []"
  then have "trim text \<noteq> []" by auto
  with ne show 1: "splitIntoSentences text =
      trimmed_nonempty (match_all is_body is_terminator (trim text))"
    by (simp add: splitIntoSentences_def Let_def)
  show "splitIntoSentences text = map trim (match_all is_body is_terminator (trim text))"
    unfolding 1 by (rule trimmed_nonempty_matches)
next
  fix m assume "m \<in> set (match_all is_body is_terminator (trim text))"
  from match_all_shape [OF this]
  show "\<exists>b t. m = b @ t \<and> b \<noteq> [] \<and> t \<noteq> [] \<and>
          (\<forall>c\<in>set b. c \<notin> {0x2E, 0x21, 0x3F, 0x0964, 0x0965, 0x29} \<and> c \<noteq> 0x0A) \<and>
          (\<forall>c\<in>set t. c \<in> {0x2E, 0x21, 0x3F, 0x0964, 0x0965, 0x29})"
    unfolding is_body_def is_terminator_def newline_def by blast
qed

lemma paren_matches:
  "match_all is_body is_terminator (trim (js ''a) b.'')) = [js ''a)'', js '' b.'']"
  by (simp add: sentence_eval)

theorem punctuation_stage_witness:
  "match_all is_body is_terminator (trim (js ''a) b.'')) = [js ''a)'', js '' b.''] \<and>
   splitIntoSentences (js ''a) b.'') = map trim [js ''a)'', js '' b.''] \<and>
   (\<exists>b t. js ''a)'' = b @ t \<and> b \<noteq> [] \<and> t \<noteq> [] \<and>
      (\<forall>c\<in>set b. c \<notin> {0x2E, 0x21, 0x3F, 0x0964, 0x0965, 0x29} \<and> c \<noteq> 0x0A) \<and>
      (\<forall>c\<in>set t. c \<in> {0x2E, 0x21, 0x3F, 0x0964, 0x0965, 0x29}))"
proof -
  have ne: "match_all is_body is_terminator (trim (js ''a) b.'')) \<noteq> []"
    by (simp add: paren_matches)
  from punctuation_stage [of "js ''a) b.''"] ne
  have a: "splitIntoSentences (js ''a) b.'') =
      map trim (match_all is_body is_terminator (trim (js ''a) b.'')))"
    and b: "\<forall>m\<in>set (match_all is_body is_terminator (trim (js ''a) b.''))).
        \<exists>b t. m = b @ t \<and> b \<noteq> [] \<and> t \<noteq> [] \<and>
          (\<forall>c\<in>set b. c \<notin> {0x2E, 0x21, 0x3F, 0x0964, 0x0965, 0x29} \<and> c \<noteq> 0x0A) \<and>
          (\<forall>c\<in>set t. c \<in> {0x2E, 0x21, 0x3F, 0x0964, 0x0965, 0x29})"
    by blast+
  from b have "\<exists>b t. js ''a)'' = b @ t \<and> b \<noteq> [] \<and> t \<noteq> [] \<and>
      (\<forall>c\<in>set b. c \<notin> {0x2E, 0x21, 0x3F, 0x0964, 0x0965, 0x29} \<and> c \<noteq> 0x0A) \<and>
      (\<forall>c\<in>set t. c \<in> {0x2E, 0x21, 0x3F, 0x0964, 0x0965, 0x29})"
    unfolding paren_matches by simp
  with a show ?thesis unfolding paren_matches by blast
qed

text \<open>
  C4 as stated, refuted: with the five terminators of the claim the text \<open>a) b.\<close> is one
  sentence; the code splits it after the parenthesis. Likewise a newline ends a run for
  the code (and what stands before it is lost) but not for the claim.
\<close>

theorem punctuation_stage_counterexample:
  "splitIntoSentences (js ''a) b.'') = [js ''a)'', js ''b.''] \<and>
   spec_punctuation_split (js ''a) b.'') = [js ''a) b.''] \<and>
   splitIntoSentences (js ''a'' @ [newline] @ js ''b.'') = [js ''b.''] \<and>
   spec_punctuation_split (js ''a'' @ [newline] @ js ''b.'') = [js ''a'' @ [newline] @ js ''b.'']"
  by (simp add: sentence_eval spec_punctuation_split_def spec_terminator_def)

subsection \<open>The chunked message reassembler\<close>

lemma split_on_nonempty: "split_on d s \<noteq> []"
  by (induction s) (auto split: list.splits)

lemma split_on_no_delim: "d \<notin> set s \<Longrightarrow> split_on d s = [s]"
  by (induction s) auto

lemma split_on_pieces: "piece \<in> set (split_on d s) \<Longrightarrow> d \<notin> set piece"
  by (induction s arbitrary: piece) (auto split: if_splits list.splits)

lemma split_on_append:
  "split_on d (a @ b) = butlast (split_on d a) @ split_on d (last (split_on d a) @ b)"
proof (induction a)
  case Nil
  then show ?case by simp
next
  case (Cons c a)
  show ?case
  proof (cases "c = d")
    case True
    then show ?thesis using Cons split_on_nonempty [of d a] by simp
  next
    case False
    obtain p ps where a: "split_on d a = p # ps"
      using split_on_nonempty [of d a] by (cases "split_on d a") auto
    show ?thesis
    proof (cases ps)
      case Nil
      then show ?thesis using False a Cons by simp
    next
      case (Cons q qs)
      then show ?thesis using False a Cons.IH by simp
    qed
  qed
qed

lemma join_split_on: "join_lines (split_on newline s) = s"
proof (induction s)
  case Nil
  then show ?case by simp
next
  case (Cons c s)
  obtain p ps where a: "split_on newline s = p # ps"
    using split_on_nonempty [of newline s] by (cases "split_on newline s") auto
  show ?case using Cons a by (cases ps) auto
qed

lemma foldl_on_line:
  "foldl (on_line rt) responses lines = responses @ messages_of rt lines"
  by (induction lines arbitrary: responses) (simp_all add: messages_of_def on_line_def)

lemma messages_of_append:
  "messages_of rt (xs @ ys) = messages_of rt xs @ messages_of rt ys"
  by (simp add: messages_of_def)

lemma on_end_eq: "on_end rt (buffer, responses) = responses @ messages_of rt [buffer]"
  by (simp add: on_end_def messages_of_def)

lemma on_data_eq:
  "on_data rt (buffer, responses) chunk =
     (last (split_on newline (buffer @ toString_utf8 chunk)),
      responses @ messages_of rt (butlast (split_on newline (buffer @ toString_utf8 chunk))))"
  by (simp add: on_data_def Let_def foldl_on_line)

lemma foldl_on_data:
  assumes "newline \<notin> set buffer"
  shows "foldl (on_data rt) (buffer, responses) chunks =
     (last (split_on newline (buffer @ concat (map toString_utf8 chunks))),
      responses @ messages_of rt (butlast (split_on newline (buffer @ concat (map toString_utf8 chunks)))))"
  using assms
proof (induction chunks arbitrary: buffer responses)
  case Nil
  then show ?case by (simp add: split_on_no_delim messages_of_def)
next
  case (Cons chunk chunks)
  let ?L = "split_on newline (buffer @ toString_utf8 chunk)"
  let ?rest = "concat (map toString_utf8 chunks)"
  have "last ?L \<in> set ?L" using split_on_nonempty by (intro last_in_set)
  then have nl: "newline \<notin> set (last ?L)" by (rule split_on_pieces)
  have split: "split_on newline (buffer @ toString_utf8 chunk @ ?rest) =
      butlast ?L @ split_on newline (last ?L @ ?rest)"
    using split_on_append [of newline "buffer @ toString_utf8 chunk" ?rest] by simp
  have ne: "split_on newline (last ?L @ ?rest) \<noteq> []" by (rule split_on_nonempty)
  show ?case
    using Cons.IH [OF nl] ne
    by (simp add: on_data_eq split butlast_append messages_of_append)
qed

lemma reassemble_eq:
  "reassemble rt chunks = messages_of rt (split_on newline (concat (map toString_utf8 chunks)))"
proof -
  let ?L = "split_on newline (concat (map toString_utf8 chunks))"
  have "?L \<noteq> []" by (rule split_on_nonempty)
  then have "butlast ?L @ [last ?L] = ?L" by simp
  then have "messages_of rt (butlast ?L) @ messages_of rt [last ?L] = messages_of rt ?L"
    using messages_of_append [of rt "butlast ?L" "[last ?L]"] by simp
  then show ?thesis
    using foldl_on_data [of "[]" rt "[]" chunks] by (simp add: reassemble_def on_end_eq)
qed

text \<open>
  C6. One \<open>data\<close> event: the decoded chunk is appended to the pending buffer and the
  result split at the newlines (the pieces hold no newline and, joined by newlines, give
  the text back); every piece but the last is emitted in order unless it is empty after
  trimming, and the last piece is the new pending buffer. An emitted piece becomes what
  \<open>JSON.parse\<close> returns for it, and \<open>{text: piece.trim()}\<close> when \<open>JSON.parse\<close> throws. At
  the end of the stream the pending buffer is emitted in the same way unless it is empty
  after trimming.
\<close>

theorem reassembler_step:
  "(let pieces = split_on newline (buffer @ toString_utf8 chunk) in
      pieces \<noteq> [] \<and> join_lines pieces = buffer @ toString_utf8 chunk \<and>
      (\<forall>piece\<in>set pieces. newline \<notin> set piece) \<and>
      on_data rt (buffer, responses) chunk =
        (last pieces,
         responses @ map (classify rt) (filter (\<lambda>piece. trim piece \<noteq> []) (butlast pieces)))) \<and>
   on_end rt (buffer, responses) =
     responses @ map (classify rt) (filter (\<lambda>piece. trim piece \<noteq> []) [buffer]) \<and>
   (\<forall>piece. (\<forall>v. JSON_parse rt piece = Some v \<longrightarrow> classify rt piece = v) \<and>
      (JSON_parse rt piece = None \<longrightarrow>
         classify rt piece = JObj [(js ''text'', JStr (trim piece))]))"
proof -
  have "on_end rt (buffer, responses) =
      responses @ map (classify rt) (filter (\<lambda>piece. trim piece \<noteq> []) [buffer])"
    using on_end_eq [of rt buffer responses] by (simp only: messages_of_def)
  moreover have "on_data rt (buffer, responses) chunk =
      (last (split_on newline (buffer @ toString_utf8 chunk)),
       responses @ map (classify rt) (filter (\<lambda>piece. trim piece \<noteq> [])
         (butlast (split_on newline (buffer @ toString_utf8 chunk)))))"
    using on_data_eq [of rt buffer responses chunk] by (simp only: messages_of_def)
  moreover have "\<forall>piece\<in>set (split_on newline (buffer @ toString_utf8 chunk)). newline \<notin> set piece"
    using split_on_pieces by blast
  ultimately show ?thesis
    by (simp add: Let_def split_on_nonempty join_split_on classify_def)
qed

theorem reassembler_step_witness:
  "on_data example_runtime (js ''ab'', []) [0x63, 0x0A, 0x31, 0x0A, 0x20, 0x0A, 0x64] =
     (js ''d'', [JObj [(js ''text'', JStr (js ''abc''))], JNum 1]) \<and>
   on_end example_runtime (js ''d'', []) = [JObj [(js ''text'', JStr (js ''d''))]]"
  using reassembler_step [of "js ''ab''" "[0x63, 0x0A, 0x31, 0x0A, 0x20, 0x0A, 0x64]"
      example_runtime "[]"]
    reassembler_step [of "js ''d''" "[]" example_runtime "[]"]
  by (simp add: Let_def toString_utf8_def lead_def utf16_def newline_def js_def classify_def
      example_runtime_def trim_def is_ws_def)

text \<open>
  Cutting the stream at character boundaries, where decoding the chunks one by one gives
  the text of the whole, changes nothing: the messages are those of the non-blank lines
  of the whole text.
\<close>

lemma reassemble_whole_text:
  "toString_utf8 (concat chunks) = concat (map toString_utf8 chunks) \<Longrightarrow>
   reassemble rt chunks = reassemble rt [concat chunks]"
  by (simp add: reassemble_eq)

text \<open>
  That is so in particular for a stream of ASCII bytes, whatever the chunk boundaries.
\<close>

lemma utf8_run_ascii:
  "\<forall>b\<in>set bs. b < 0x80 \<Longrightarrow> utf8_run Start bs = map (\<lambda>b. of_nat (unat b)) bs"
  by (induction bs) (simp_all add: lead_def word_less_nat_alt)

lemma toString_utf8_ascii_chunks:
  assumes "\<forall>chunk\<in>set chunks. \<forall>b\<in>set chunk. b < 0x80"
  shows "toString_utf8 (concat chunks) = concat (map toString_utf8 chunks)"
proof -
  have "toString_utf8 (concat chunks) = map (\<lambda>b. of_nat (unat b)) (concat chunks)"
    unfolding toString_utf8_def using assms by (intro utf8_run_ascii) auto
  also have "\<dots> = concat (map (map (\<lambda>b. of_nat (unat b))) chunks)"
    by (simp add: map_concat)
  also have "\<dots> = concat (map toString_utf8 chunks)"
    using assms by (intro arg_cong [where f = concat] map_cong refl)
      (simp add: toString_utf8_def utf8_run_ascii)
  finally show ?thesis .
qed

lemma reassemble_ascii_chunks:
  "\<forall>chunk\<in>set chunks. \<forall>b\<in>set chunk. b < 0x80 \<Longrightarrow>
   reassemble rt chunks = reassemble rt [concat chunks]"
  by (simp add: reassemble_eq toString_utf8_ascii_chunks)

text \<open>
  C1 fails where a chunk boundary falls inside a character. The two bytes \<open>C3 A9\<close> of
  U+00E9, delivered one by one, are each decoded to U+FFFD, and the message differs from
  that of the unsplit stream whenever \<open>JSON.parse\<close> rejects both texts (it does: neither
  is JSON).
\<close>

theorem split_inside_character:
  "JSON_parse rt [0xFFFD, 0xFFFD] = None \<and> JSON_parse rt [0xE9] = None \<longrightarrow>
   reassemble rt [[0xC3], [0xA9]] = [JObj [(js ''text'', JStr [0xFFFD, 0xFFFD])]] \<and>
   reassemble rt [concat [[0xC3], [0xA9]]] = [JObj [(js ''text'', JStr [0xE9])]] \<and>
   reassemble rt [[0xC3], [0xA9]] \<noteq> reassemble rt [concat [[0xC3], [0xA9]]]"
  by (simp add: reassemble_def on_data_def on_end_def on_line_def classify_def
      toString_utf8_def lead_def utf16_def newline_def trim_def is_ws_def)

theorem split_inside_character_witness:
  "reassemble example_runtime [[0xC3], [0xA9]] = [JObj [(js ''text'', JStr [0xFFFD, 0xFFFD])]] \<and>
   reassemble example_runtime [[0xC3, 0xA9]] = [JObj [(js ''text'', JStr [0xE9])]]"
  using split_inside_character [of example_runtime]
  by (simp add: example_runtime_def js_def)

subsection \<open>The request handlers\<close>

text \<open>
  C8. When the speech-to-text call throws, the progressive run sends \<open>start\<close>,
  \<open>stt_start\<close> and one \<open>error\<close> event and stops, the aggregate run answers with the one
  500 response, and in both the only call added to the log is the speech-to-text call:
  text-to-speech (and the webhook) are never called.
\<close>

theorem stt_failure_stops_run:
  "convertAudioToText c w = (Inl error, w') \<longrightarrow>
     process_recording_stream rt c True (w, log) =
       ([E_start, E_stt_start, E_error error], (w', log @ [STT_call])) \<and>
     process_recording rt c True (w, log) = (Failure error, (w', log @ [STT_call]))"
  by (simp add: process_recording_stream_def process_recording_def call_stt_def)

theorem stt_failure_stops_run_witness:
  "process_recording_stream example_runtime failing_stt True (0, []) =
     ([E_start, E_stt_start,
       E_error (Error (js ''STT conversion failed: No transcript returned from STT API''))],
      (0, [STT_call])) \<and>
   process_recording example_runtime failing_stt True (0, []) =
     (Failure (Error (js ''STT conversion failed: No transcript returned from STT API'')),
      (0, [STT_call]))"
  using stt_failure_stops_run [of failing_stt 0
      "Error (js ''STT conversion failed: No transcript returned from STT API'')" 0
      example_runtime "[]"]
  by (simp add: failing_stt_def)

text \<open>
  C7. A progressive run with three sentences of trimmed length at least 2, whose second
  text-to-speech call throws: the events are exactly the six stage events, a
  \<open>tts_result\<close> for the first sentence, a \<open>tts_error\<close> with index 2 and the second
  sentence, a \<open>tts_result\<close> for the third sentence (its \<open>sentenceIndex\<close> is the success
  count 2), and \<open>complete\<close>.
\<close>

theorem one_failed_sentence:
  "call_stt c st = (Inr sttText, st1) \<and>
   callWebhookStream rt c sttText st1 = (Inr webhookResponses, st2) \<and>
   accumulate rt [] webhookResponses = Inr accumulatedText \<and>
   splitIntoSentences accumulatedText = [s1, s2, s3] \<and>
   2 \<le> length (trim s1) \<and> 2 \<le> length (trim s2) \<and> 2 \<le> length (trim s3) \<and>
   call_tts c s1 st2 = (Inr a1, st3) \<and>
   call_tts c s2 st3 = (Inl e2, st4) \<and>
   call_tts c s3 st4 = (Inr a3, st5) \<longrightarrow>
   process_recording_stream rt c True st =
     ([E_start, E_stt_start, E_stt_complete sttText, E_webhook_start,
       E_webhook_complete (length webhookResponses), E_tts_start 3 accumulatedText,
       E_tts_result 1 s1 a1 3, E_tts_error 2 s2 e2, E_tts_result 2 s3 a3 3,
       E_complete 3 2], st5)"
  by (simp add: process_recording_stream_def Let_def)

lemma example_text: "toString_utf8 (ascii ''Hi. Yo. Ok.'') = js ''Hi. Yo. Ok.''"
  by (simp add: toString_utf8_def ascii_def js_def lead_def)

lemma example_messages:
  "reassemble example_runtime [ascii ''Hi. Yo. Ok.''] =
     [JObj [(js ''text'', JStr (js ''Hi. Yo. Ok.''))]]"
  by (simp add: reassemble_def on_data_def on_end_def example_text Let_def newline_def js_def
      on_line_def classify_def trim_def is_ws_def example_runtime_def)

lemma example_accumulate:
  "accumulate example_runtime [] [JObj [(js ''text'', JStr (js ''Hi. Yo. Ok.''))]] =
     Inr (js ''Hi. Yo. Ok.'')"
  by (simp add: extractTextFromResponse_def bind_def js_def)

lemma example_sentences:
  "splitIntoSentences (js ''Hi. Yo. Ok.'') = [js ''Hi.'', js ''Yo.'', js ''Ok.'']"
  by (simp add: splitIntoSentences_def trimmed_nonempty_def trim_def is_ws_def
      match_here_def is_body_def is_terminator_def newline_def js_def Let_def)

theorem one_failed_sentence_witness:
  "process_recording_stream example_runtime (example_collaborators [ascii ''Hi. Yo. Ok.''] 2)
       True (0, []) =
     ([E_start, E_stt_start, E_stt_complete (js ''hello''), E_webhook_start,
       E_webhook_complete 1, E_tts_start 3 (js ''Hi. Yo. Ok.''),
       E_tts_result 1 (js ''Hi.'') (js ''QUJD'') 3,
       E_tts_error 2 (js ''Yo.'') (Error (js ''TTS conversion failed: timeout'')),
       E_tts_result 2 (js ''Ok.'') (js ''QUJD'') 3,
       E_complete 3 2],
      (3, [STT_call, Webhook_call (js ''hello''), TTS_call (js ''Hi.''), TTS_call (js ''Yo.''),
           TTS_call (js ''Ok.'')]))"
proof -
  let ?c = "example_collaborators [ascii ''Hi. Yo. Ok.''] 2"
  have 1: "call_stt ?c (0, []) = (Inr (js ''hello''), (0, [STT_call]))"
    by (simp add: call_stt_def example_collaborators_def)
  have 2: "callWebhookStream example_runtime ?c (js ''hello'') (0, [STT_call]) =
      (Inr [JObj [(js ''text'', JStr (js ''Hi. Yo. Ok.''))]],
       (0, [STT_call, Webhook_call (js ''hello'')]))"
    by (simp add: callWebhookStream_def example_collaborators_def example_messages)
  have 3: "call_tts ?c (js ''Hi.'') (0, [STT_call, Webhook_call (js ''hello'')]) =
      (Inr (js ''QUJD''), (1, [STT_call, Webhook_call (js ''hello''), TTS_call (js ''Hi.'')]))"
    by (simp add: call_tts_def example_collaborators_def)
  have 4: "call_tts ?c (js ''Yo.'')
        (1, [STT_call, Webhook_call (js ''hello''), TTS_call (js ''Hi.'')]) =
      (Inl (Error (js ''TTS conversion failed: timeout'')),
       (2, [STT_call, Webhook_call (js ''hello''), TTS_call (js ''Hi.''), TTS_call (js ''Yo.'')]))"
    by (simp add: call_tts_def example_collaborators_def)
  have 5: "call_tts ?c (js ''Ok.'')
        (2, [STT_call, Webhook_call (js ''hello''), TTS_call (js ''Hi.''), TTS_call (js ''Yo.'')]) =
      (Inr (js ''QUJD''),
       (3, [STT_call, Webhook_call (js ''hello''), TTS_call (js ''Hi.''), TTS_call (js ''Yo.''),
            TTS_call (js ''Ok.'')]))"
    by (simp add: call_tts_def example_collaborators_def)
  have 6: "2 \<le> length (trim (js ''Hi.''))" "2 \<le> length (trim (js ''Yo.''))"
    "2 \<le> length (trim (js ''Ok.''))"
    by (simp_all add: trim_def is_ws_def js_def)
  note run = one_failed_sentence [where c = ?c and st = "(0, [])" and rt = example_runtime
      and sttText = "js ''hello''" and ?st1.0 = "(0, [STT_call])"
      and webhookResponses = "[JObj [(js ''text'', JStr (js ''Hi. Yo. Ok.''))]]"
      and ?st2.0 = "(0, [STT_call, Webhook_call (js ''hello'')])"
      and accumulatedText = "js ''Hi. Yo. Ok.''"
      and ?s1.0 = "js ''Hi.''" and ?s2.0 = "js ''Yo.''" and ?s3.0 = "js ''Ok.''"
      and ?a1.0 = "js ''QUJD''" and ?e2.0 = "Error (js ''TTS conversion failed: timeout'')"
      and ?a3.0 = "js ''QUJD''"
      and ?st3.0 = "(1, [STT_call, Webhook_call (js ''hello''), TTS_call (js ''Hi.'')])"
      and ?st4.0 = "(2, [STT_call, Webhook_call (js ''hello''), TTS_call (js ''Hi.''),
                     TTS_call (js ''Yo.'')])"
      and ?st5.0 = "(3, [STT_call, Webhook_call (js ''hello''), TTS_call (js ''Hi.''),
                     TTS_call (js ''Yo.''), TTS_call (js ''Ok.'')])"]
  have "process_recording_stream example_runtime ?c True (0, []) =
     ([E_start, E_stt_start, E_stt_complete (js ''hello''), E_webhook_start,
       E_webhook_complete (length [JObj [(js ''text'', JStr (js ''Hi. Yo. Ok.''))] :: nat json]),
       E_tts_start 3 (js ''Hi. Yo. Ok.''),
       E_tts_result 1 (js ''Hi.'') (js ''QUJD'') 3,
       E_tts_error 2 (js ''Yo.'') (Error (js ''TTS conversion failed: timeout'')),
       E_tts_result 2 (js ''Ok.'') (js ''QUJD'') 3,
       E_complete 3 2],
      (3, [STT_call, Webhook_call (js ''hello''), TTS_call (js ''Hi.''), TTS_call (js ''Yo.''),
           TTS_call (js ''Ok.'')]))"
    by (rule run [THEN mp]) (intro conjI 1 2 3 4 5 6 example_accumulate example_sentences)
  then show ?thesis by simp
qed

lemma call_tts_log: "call_tts c s st = (r, st') \<Longrightarrow> snd st' = snd st @ [TTS_call s]"
  by (auto simp: call_tts_def split: prod.splits)

lemma collect_tts_results:
  "collect_tts c results sentences st = (Inr results', st') \<Longrightarrow>
     map sentence results' = map sentence results @ synthesized sentences \<and>
     map sentenceIndex results' =
       map sentenceIndex results @ [length results + 1 ..< length results' + 1] \<and>
     snd st' = snd st @ map TTS_call (synthesized sentences)"
proof (induction sentences arbitrary: results st)
  case Nil
  then show ?case by (simp add: synthesized_def)
next
  case (Cons s rest)
  show ?case
  proof (cases "length (trim s) < 2")
    case True
    with Cons.prems have "collect_tts c results rest st = (Inr results', st')" by simp
    from Cons.IH [OF this] True show ?thesis by (simp add: synthesized_def)
  next
    case False
    obtain r st1 where call: "call_tts c s st = (r, st1)" by (cases "call_tts c s st")
    show ?thesis
    proof (cases r)
      case (Inl error)
      with Cons.prems False call show ?thesis by simp
    next
      case (Inr audio)
      let ?results = "results @ [\<lparr>sentenceIndex = length results + 1, sentence = s, ttsBase64 = audio\<rparr>]"
      from Cons.prems False call Inr
      have "collect_tts c ?results rest st1 = (Inr results', st')" by simp
      from Cons.IH [OF this]
      have 1: "map sentence results' = map sentence ?results @ synthesized rest"
        and 2: "map sentenceIndex results' =
          map sentenceIndex ?results @ [length ?results + 1 ..< length results' + 1]"
        and 3: "snd st' = snd st1 @ map TTS_call (synthesized rest)"
        by blast+
      from 1 have "length results' = length ?results + length (synthesized rest)"
        using length_map [of sentence results'] by (metis length_append length_map)
      then have "length results < length results'" by simp
      then have "[length results + 1 ..< length results' + 1] =
          (length results + 1) # [length ?results + 1 ..< length results' + 1]"
        by (simp add: upt_conv_Cons)
      with 1 2 3 call_tts_log [OF call] False show ?thesis
        by (simp add: synthesized_def)
    qed
  qed
qed

lemma stream_tts_events:
  "stream_tts c len i n sentences st = (events, n', st') \<Longrightarrow>
     reported events = synthesized sentences \<and>
     result_indices events = [n + 1 ..< n' + 1] \<and> n \<le> n' \<and>
     snd st' = snd st @ map TTS_call (synthesized sentences)"
proof (induction sentences arbitrary: i n st events)
  case Nil
  then show ?case by (simp add: synthesized_def)
next
  case (Cons s rest)
  show ?case
  proof (cases "length (trim s) < 2")
    case True
    with Cons.prems have "stream_tts c len (i + 1) n rest st = (events, n', st')" by simp
    from Cons.IH [OF this] True show ?thesis
      by (simp add: synthesized_def)
  next
    case False
    obtain r st1 where call: "call_tts c s st = (r, st1)" by (cases "call_tts c s st")
    show ?thesis
    proof (cases r)
      case (Inl error)
      obtain evs where rec: "stream_tts c len (i + 1) n rest st1 = (evs, n', st')"
        and events: "events = E_tts_error (i + 1) s error # evs"
        using Cons.prems False call Inl by (auto split: prod.splits)
      from Cons.IH [OF rec] call_tts_log [OF call] False events show ?thesis
        by (simp add: synthesized_def)
    next
      case (Inr audio)
      obtain evs where rec: "stream_tts c len (i + 1) (n + 1) rest st1 = (evs, n', st')"
        and events: "events = E_tts_result (n + 1) s audio len # evs"
        using Cons.prems False call Inr by (auto split: prod.splits)
      from Cons.IH [OF rec] have le: "n + 1 \<le> n'" by blast
      then have "[n + 1 ..< n' + 1] = (n + 1) # [n + 1 + 1 ..< n' + 1]"
        by (simp add: upt_conv_Cons)
      with Cons.IH [OF rec] call_tts_log [OF call] False events le show ?thesis
        by (simp add: synthesized_def)
    qed
  qed
qed

lemma stream_tts_errors:
  "stream_tts c len i n sentences st = (events, n', st') \<Longrightarrow>
   E_tts_error k s e \<in> set events \<Longrightarrow>
     i < k \<and> k \<le> i + length sentences \<and> sentences ! (k - i - 1) = s"
proof (induction sentences arbitrary: i n st events)
  case Nil
  then show ?case by simp
next
  case (Cons x rest)
  have step: "i < k \<and> k \<le> i + length (x # rest) \<and> (x # rest) ! (k - i - 1) = s"
    if "i + 1 < k \<and> k \<le> i + 1 + length rest \<and> rest ! (k - (i + 1) - 1) = s"
  proof -
    from that have "k - i - 1 = Suc (k - (i + 1) - 1)" by arith
    with that show ?thesis by simp
  qed
  show ?case
  proof (cases "length (trim x) < 2")
    case True
    with Cons.prems have "stream_tts c len (i + 1) n rest st = (events, n', st')" by simp
    from Cons.IH [OF this Cons.prems(2)] show ?thesis by (rule step)
  next
    case False
    obtain r st1 where call: "call_tts c x st = (r, st1)" by (cases "call_tts c x st")
    show ?thesis
    proof (cases r)
      case (Inl error)
      obtain evs where rec: "stream_tts c len (i + 1) n rest st1 = (evs, n', st')"
        and events: "events = E_tts_error (i + 1) x error # evs"
        using Cons.prems(1) False call Inl by (auto split: prod.splits)
      from Cons.prems(2) events
      have "(k = i + 1 \<and> s = x) \<or> E_tts_error k s e \<in> set evs" by auto
      then show ?thesis
      proof
        assume "k = i + 1 \<and> s = x"
        then show ?thesis by simp
      next
        assume "E_tts_error k s e \<in> set evs"
        from Cons.IH [OF rec this] show ?thesis by (rule step)
      qed
    next
      case (Inr audio)
      obtain evs where rec: "stream_tts c len (i + 1) (n + 1) rest st1 = (evs, n', st')"
        and events: "events = E_tts_result (n + 1) x audio len # evs"
        using Cons.prems(1) False call Inr by (auto split: prod.splits)
      from Cons.prems(2) events have "E_tts_error k s e \<in> set evs" by auto
      from Cons.IH [OF rec this] show ?thesis by (rule step)
    qed
  qed
qed

text \<open>
  The part of C3 that holds: both loops skip a sentence whose trimmed length is below 2
  (no call, no result, no event) and report the other sentences in order.
\<close>

lemma short_sentences_skipped:
  "(\<forall>results st'. collect_tts c [] sentences st = (Inr results, st') \<longrightarrow>
      map sentence results = synthesized sentences \<and>
      snd st' = snd st @ map TTS_call (synthesized sentences)) \<and>
   (\<forall>events n st'. stream_tts c len 0 0 sentences st = (events, n, st') \<longrightarrow>
      reported events = synthesized sentences \<and>
      snd st' = snd st @ map TTS_call (synthesized sentences))"
proof (intro conjI allI impI)
  fix results st' assume "collect_tts c [] sentences st = (Inr results, st')"
  from collect_tts_results [OF this]
  show "map sentence results = synthesized sentences"
    and "snd st' = snd st @ map TTS_call (synthesized sentences)"
    by simp_all
next
  fix events n st' assume "stream_tts c len 0 0 sentences st = (events, n, st')"
  from stream_tts_events [OF this]
  show "reported events = synthesized sentences"
    and "snd st' = snd st @ map TTS_call (synthesized sentences)"
    by simp_all
qed

lemma short_sentence_lengths:
  "length (trim (js ''Hi.'')) = 3" "length (trim (js ''.'')) = 1"
  "length (trim (js ''Yo.'')) = 3" "length (trim (js ''Ok.'')) = 3"
  by (simp_all add: trim_def is_ws_def js_def)

lemma short_text: "toString_utf8 (ascii ''Hi. . Yo.'') = js ''Hi. . Yo.''"
  by (simp add: toString_utf8_def ascii_def js_def lead_def)

lemma short_messages:
  "reassemble example_runtime [ascii ''Hi. . Yo.''] =
     [JObj [(js ''text'', JStr (js ''Hi. . Yo.''))]]"
  by (simp add: reassemble_def on_data_def on_end_def short_text Let_def newline_def js_def
      on_line_def classify_def trim_def is_ws_def example_runtime_def)

lemma short_accumulate:
  "accumulate example_runtime [] [JObj [(js ''text'', JStr (js ''Hi. . Yo.''))]] =
     Inr (js ''Hi. . Yo.'')"
  by (simp add: extractTextFromResponse_def bind_def js_def)

lemma short_sentences:
  "splitIntoSentences (js ''Hi. . Yo.'') = [js ''Hi.'', js ''.'', js ''Yo.'']"
  by (simp add: splitIntoSentences_def trimmed_nonempty_def trim_def is_ws_def
      match_here_def is_body_def is_terminator_def newline_def js_def Let_def)

lemma process_recording_success:
  assumes "call_stt c st = (Inr sttText, st1)"
    and "callWebhookStream rt c sttText st1 = (Inr webhookResponses, st2)"
    and "accumulate rt [] webhookResponses = Inr accumulatedText"
    and "collect_tts c [] (splitIntoSentences accumulatedText) st2 = (Inr results, st3)"
  shows "process_recording rt c True st =
     (Success sttText (length webhookResponses) accumulatedText results, st3)"
  using assms by (simp add: process_recording_def)

lemma process_recording_stream_success:
  assumes "call_stt c st = (Inr sttText, st1)"
    and "callWebhookStream rt c sttText st1 = (Inr webhookResponses, st2)"
    and "accumulate rt [] webhookResponses = Inr accumulatedText"
    and "stream_tts c (length (splitIntoSentences accumulatedText)) 0 0
           (splitIntoSentences accumulatedText) st2 = (events, n, st3)"
  shows "process_recording_stream rt c True st =
     ([E_start, E_stt_start, E_stt_complete sttText, E_webhook_start,
       E_webhook_complete (length webhookResponses),
       E_tts_start (length (splitIntoSentences accumulatedText)) accumulatedText]
      @ events @ [E_complete (length (splitIntoSentences accumulatedText)) n], st3)"
  using assms by (simp add: process_recording_stream_def Let_def)

text \<open>
  C3 fails in the numbering. The text \<open>Hi. . Yo.\<close> is segmented into \<open>Hi.\<close>, \<open>.\<close> and
  \<open>Yo.\<close>; the second sentence is skipped, and the third one is reported under the
  \<open>sentenceIndex\<close> 2, not 3, in the aggregate results (\<open>results.length + 1\<close>) and in the
  progressive \<open>tts_result\<close> event (\<open>successCount\<close>). In the same progressive loop the
  \<open>tts_error\<close> event carries \<open>i + 1\<close>: for \<open>Hi. Yo. Ok.\<close> with the first text-to-speech
  call failing, the stream holds a \<open>tts_error\<close> with index 1 for \<open>Hi.\<close> and a
  \<open>tts_result\<close> with index 1 for \<open>Yo.\<close>.
\<close>

theorem success_index_renumbered:
  "splitIntoSentences (js ''Hi. . Yo.'') = [js ''Hi.'', js ''.'', js ''Yo.''] \<and>
   fst (process_recording example_runtime (example_collaborators [ascii ''Hi. . Yo.''] 0)
          True (0, [])) =
     Success (js ''hello'') 1 (js ''Hi. . Yo.'')
       [\<lparr>sentenceIndex = 1, sentence = js ''Hi.'', ttsBase64 = js ''QUJD''\<rparr>,
        \<lparr>sentenceIndex = 2, sentence = js ''Yo.'', ttsBase64 = js ''QUJD''\<rparr>] \<and>
   fst (process_recording_stream example_runtime
          (example_collaborators [ascii ''Hi. . Yo.''] 0) True (0, [])) =
     [E_start, E_stt_start, E_stt_complete (js ''hello''), E_webhook_start,
      E_webhook_complete 1, E_tts_start 3 (js ''Hi. . Yo.''),
      E_tts_result 1 (js ''Hi.'') (js ''QUJD'') 3,
      E_tts_result 2 (js ''Yo.'') (js ''QUJD'') 3,
      E_complete 3 2] \<and>
   splitIntoSentences (js ''Hi. Yo. Ok.'') = [js ''Hi.'', js ''Yo.'', js ''Ok.''] \<and>
   fst (process_recording_stream example_runtime
          (example_collaborators [ascii ''Hi. Yo. Ok.''] 1) True (0, [])) =
     [E_start, E_stt_start, E_stt_complete (js ''hello''), E_webhook_start,
      E_webhook_complete 1, E_tts_start 3 (js ''Hi. Yo. Ok.''),
      E_tts_error 1 (js ''Hi.'') (Error (js ''TTS conversion failed: timeout'')),
      E_tts_result 1 (js ''Yo.'') (js ''QUJD'') 3,
      E_tts_result 2 (js ''Ok.'') (js ''QUJD'') 3,
      E_complete 3 2]"
proof -
  let ?c = "example_collaborators [ascii ''Hi. . Yo.''] 0"
  let ?d = "example_collaborators [ascii ''Hi. Yo. Ok.''] 1"
  have 1: "call_stt ?c (0, []) = (Inr (js ''hello''), (0, [STT_call]))"
    by (simp add: call_stt_def example_collaborators_def)
  have 2: "callWebhookStream example_runtime ?c (js ''hello'') (0, [STT_call]) =
      (Inr [JObj [(js ''text'', JStr (js ''Hi. . Yo.''))]],
       (0, [STT_call, Webhook_call (js ''hello'')]))"
    by (simp add: callWebhookStream_def example_collaborators_def short_messages)
  have 3: "collect_tts ?c [] (splitIntoSentences (js ''Hi. . Yo.''))
        (0, [STT_call, Webhook_call (js ''hello'')]) =
      (Inr [\<lparr>sentenceIndex = 1, sentence = js ''Hi.'', ttsBase64 = js ''QUJD''\<rparr>,
            \<lparr>sentenceIndex = 2, sentence = js ''Yo.'', ttsBase64 = js ''QUJD''\<rparr>],
       (2, [STT_call, Webhook_call (js ''hello''), TTS_call (js ''Hi.''),
            TTS_call (js ''Yo.'')]))"
    by (simp add: short_sentences short_sentence_lengths call_tts_def example_collaborators_def)
  have 4: "stream_tts ?c (length (splitIntoSentences (js ''Hi. . Yo.''))) 0 0
        (splitIntoSentences (js ''Hi. . Yo.''))
        (0, [STT_call, Webhook_call (js ''hello'')]) =
      ([E_tts_result 1 (js ''Hi.'') (js ''QUJD'') 3,
        E_tts_result 2 (js ''Yo.'') (js ''QUJD'') 3], 2,
       (2, [STT_call, Webhook_call (js ''hello''), TTS_call (js ''Hi.''),
            TTS_call (js ''Yo.'')]))"
    by (simp add: short_sentences short_sentence_lengths call_tts_def example_collaborators_def)
  have 5: "call_stt ?d (0, []) = (Inr (js ''hello''), (0, [STT_call]))"
    by (simp add: call_stt_def example_collaborators_def)
  have 6: "callWebhookStream example_runtime ?d (js ''hello'') (0, [STT_call]) =
      (Inr [JObj [(js ''text'', JStr (js ''Hi. Yo. Ok.''))]],
       (0, [STT_call, Webhook_call (js ''hello'')]))"
    by (simp add: callWebhookStream_def example_collaborators_def example_messages)
  have 7: "stream_tts ?d (length (splitIntoSentences (js ''Hi. Yo. Ok.''))) 0 0
        (splitIntoSentences (js ''Hi. Yo. Ok.''))
        (0, [STT_call, Webhook_call (js ''hello'')]) =
      ([E_tts_error 1 (js ''Hi.'') (Error (js ''TTS conversion failed: timeout'')),
        E_tts_result 1 (js ''Yo.'') (js ''QUJD'') 3,
        E_tts_result 2 (js ''Ok.'') (js ''QUJD'') 3], 2,
       (3, [STT_call, Webhook_call (js ''hello''), TTS_call (js ''Hi.''),
            TTS_call (js ''Yo.''), TTS_call (js ''Ok.'')]))"
    by (simp add: example_sentences short_sentence_lengths call_tts_def
        example_collaborators_def)
  show ?thesis
    using process_recording_success [OF 1 2 short_accumulate 3]
      process_recording_stream_success [OF 1 2 short_accumulate 4]
      process_recording_stream_success [OF 5 6 example_accumulate 7]
    by (simp add: short_sentences example_sentences)
qed

subsection \<open>Text extraction and accumulation\<close>








end
